theory Spec2Isabelle
  imports Main "HOL-Library.Char_ord" "HOL-Library.Sublist" "HOL-Library.Multiset"
begin

section \<open>The Go library functions the validator calls\<close>

text \<open>
  The program under verification is \<^verbatim>\<open>cmd/api/main.go\<close>: a \<^verbatim>\<open>QueryValidator\<close> holding a table
  of compiled parameter-name patterns and a table of type validators. It calls three library
  functions: \<^verbatim>\<open>regexp.Compile\<close> / \<^verbatim>\<open>regexp.MatchString\<close>, \<^verbatim>\<open>strings.ToLower\<close> and
  \<^verbatim>\<open>fmt.Errorf\<close> / \<^verbatim>\<open>fmt.Sprintf\<close>. Go strings are byte sequences, so a Go string is a
  \<^typ>\<open>string\<close> here (a list of 8-bit characters).
\<close>

subsection \<open>Compiled regular expressions and matching\<close>

text \<open>
  A compiled pattern is a syntax tree whose constructors follow the operators of Go's
  \<^verbatim>\<open>regexp/syntax\<close> package. Under the flags of \<^verbatim>\<open>regexp.Compile\<close> the pattern characters
  \<^verbatim>\<open>^\<close> and \<^verbatim>\<open>$\<close> are \<open>BeginText\<close> and \<open>EndText\<close>: they match at the two ends of the
  whole input only, never next to an inner line break. A character class is a list of
  inclusive byte ranges.
\<close>

datatype regexp =
    EmptyMatch
  | Literal char
  | CharClass "(char \<times> char) list"
  | BeginText
  | EndText
  | Concat regexp regexp
  | Alternate regexp regexp
  | Star regexp
  | Plus regexp
  | Quest regexp
  | Repeat nat regexp
  | Capture regexp

text \<open>
  A matcher position is the input still to be read, together with a flag that says
  whether the position is the very beginning of the text.
\<close>

type_synonym pos = "bool \<times> string"

definition in_class :: "(char \<times> char) list \<Rightarrow> char \<Rightarrow> bool" where
  "in_class rs c = list_ex (\<lambda>(lo, hi). lo \<le> c \<and> c \<le> hi) rs"

definition eat :: "(char \<Rightarrow> bool) \<Rightarrow> pos \<Rightarrow> pos list" where
  "eat P p = (case snd p of [] \<Rightarrow> [] | x # xs \<Rightarrow> if P x then [(False, xs)] else [])"

definition advance :: "(pos \<Rightarrow> pos list) \<Rightarrow> pos list \<Rightarrow> pos list" where
  "advance f ps = remdups (concat (map f ps))"

text \<open>
  \<open>closure n f ps\<close> collects the positions reached from \<open>ps\<close> by at most \<open>n\<close> rounds of
  \<open>f\<close>. A round that reads nothing returns to the position it started from, so every
  position a starred expression can reach is reached within as many rounds as there are
  characters left; \<open>run\<close> gives \<open>closure\<close> exactly that many (lemmas \<open>run_Star_rtrancl\<close>
  and \<open>run_Plus_trancl\<close> below).
\<close>

primrec closure :: "nat \<Rightarrow> (pos \<Rightarrow> pos list) \<Rightarrow> pos list \<Rightarrow> pos list" where
  "closure 0 f ps = ps"
| "closure (Suc n) f ps = ps @ closure n f (advance f ps)"

text \<open>\<open>run r p\<close> lists every position at which a match of \<open>r\<close> that starts at \<open>p\<close> can end.\<close>

primrec run :: "regexp \<Rightarrow> pos \<Rightarrow> pos list" where
  "run EmptyMatch p = [p]"
| "run (Literal c) p = eat (\<lambda>x. x = c) p"
| "run (CharClass rs) p = eat (in_class rs) p"
| "run BeginText p = (if fst p then [p] else [])"
| "run EndText p = (if snd p = [] then [p] else [])"
| "run (Concat r1 r2) p = advance (run r2) (run r1 p)"
| "run (Alternate r1 r2) p = run r1 p @ run r2 p"
| "run (Star r) p = closure (length (snd p)) (run r) [p]"
| "run (Plus r) p = closure (length (snd p)) (run r) (run r p)"
| "run (Quest r) p = run r p @ [p]"
| "run (Repeat n r) p = (advance (run r) ^^ n) [p]"
| "run (Capture r) p = run r p"

fun starts :: "bool \<Rightarrow> string \<Rightarrow> pos list" where
  "starts b [] = [(b, [])]"
| "starts b (c # cs) = (b, c # cs) # starts False cs"

text \<open>
  The method \<^verbatim>\<open>MatchString\<close> of a compiled pattern reports whether the input contains a
  match anywhere: the match may start at any position of the input.
\<close>

definition MatchString :: "regexp \<Rightarrow> string \<Rightarrow> bool" where
  "MatchString re s = list_ex (\<lambda>p. run re p \<noteq> []) (starts True s)"

subsection \<open>A pattern compiler for a fragment of the pattern syntax\<close>

text \<open>
  The validator's own functions below take the pattern compiler as a parameter \<open>compile\<close>, of
  type \<open>compiler\<close>: it returns the text of the compiler's error, or the compiled pattern.
  What is proved about \<^verbatim>\<open>AddParamPattern\<close> holds for every compiler.

  \<open>Compile\<close> is a compiler for the part of Go's pattern syntax that the patterns written
  in \<^verbatim>\<open>main.go\<close> use: literal ASCII characters, escaped punctuation, the digit class
  (backslash followed by \<open>d\<close>), bracketed classes of ASCII characters and ranges, groups,
  alternation, the anchors, the operators \<^verbatim>\<open>* + ?\<close> and a counted repetition \<^verbatim>\<open>{n}\<close>. Like
  Go's parser it reads the pattern left to right and keeps a stack of the groups still
  open. The errors it reports for an ill-formed pattern carry the text Go prints. A
  pattern that uses anything else (negated classes, the dot, flags, lazy or stacked
  repetition, other escapes, bytes outside ASCII, more than 1000 characters) is answered
  with \<open>Inl unsupported\<close>: on those patterns \<open>Compile\<close> says nothing about Go.
\<close>

type_synonym compiler = "string \<Rightarrow> string + regexp"

definition backslash :: char where
  "backslash = CHR 0x5C"

definition backquote :: char where
  "backquote = CHR 0x60"

definition syntax_error :: "string \<Rightarrow> string \<Rightarrow> string" where
  "syntax_error code expr =
     ''error parsing regexp: '' @ code @ '': '' @ [backquote] @ expr @ [backquote]"

definition unsupported :: string where
  "unsupported = ''pattern outside the modelled fragment''"

definition is_ascii :: "char \<Rightarrow> bool" where
  "is_ascii c = (c < CHR 0x80)"

definition is_digit :: "char \<Rightarrow> bool" where
  "is_digit c = (CHR ''0'' \<le> c \<and> c \<le> CHR ''9'')"

definition is_letter :: "char \<Rightarrow> bool" where
  "is_letter c = ((CHR ''A'' \<le> c \<and> c \<le> CHR ''Z'') \<or> (CHR ''a'' \<le> c \<and> c \<le> CHR ''z''))"

definition isalnum :: "char \<Rightarrow> bool" where
  "isalnum c = (is_digit c \<or> is_letter c)"

type_synonym frame = "regexp list \<times> regexp list"

fun mk_concat :: "regexp list \<Rightarrow> regexp" where
  "mk_concat [] = EmptyMatch"
| "mk_concat [r] = r"
| "mk_concat (r # rs) = Concat r (mk_concat rs)"

fun mk_alternate :: "regexp list \<Rightarrow> regexp" where
  "mk_alternate [] = EmptyMatch"
| "mk_alternate [r] = r"
| "mk_alternate (r # rs) = Alternate r (mk_alternate rs)"

text \<open>
  A frame is one open group: the alternatives already finished and the items of the
  alternative being read, both newest first.
\<close>

definition close_frame :: "frame \<Rightarrow> regexp" where
  "close_frame fr = mk_alternate (rev (mk_concat (rev (snd fr)) # fst fr))"

primrec has_repeat :: "regexp \<Rightarrow> bool" where
  "has_repeat EmptyMatch = False"
| "has_repeat (Literal c) = False"
| "has_repeat (CharClass rs) = False"
| "has_repeat BeginText = False"
| "has_repeat EndText = False"
| "has_repeat (Concat r1 r2) = (has_repeat r1 \<or> has_repeat r2)"
| "has_repeat (Alternate r1 r2) = (has_repeat r1 \<or> has_repeat r2)"
| "has_repeat (Star r) = has_repeat r"
| "has_repeat (Plus r) = has_repeat r"
| "has_repeat (Quest r) = has_repeat r"
| "has_repeat (Repeat n r) = True"
| "has_repeat (Capture r) = has_repeat r"

definition class_char_ok :: "char \<Rightarrow> bool" where
  "class_char_ok c = (is_ascii c \<and> c \<noteq> backslash \<and> c \<noteq> CHR ''['')"

type_synonym class_result = "string + ((char \<times> char) list \<times> string)"

definition add_range :: "char \<Rightarrow> char \<Rightarrow> string \<Rightarrow> class_result \<Rightarrow> class_result" where
  "add_range lo hi rng res =
     (if \<not> class_char_ok lo \<or> \<not> class_char_ok hi then Inl unsupported
      else if hi < lo then Inl (syntax_error ''invalid character class range'' rng)
      else (case res of Inl e \<Rightarrow> Inl e | Inr (rs, u) \<Rightarrow> Inr ((lo, hi) # rs, u)))"

fun class_items :: "string \<Rightarrow> string \<Rightarrow> class_result" where
  "class_items whole [] = Inl (syntax_error ''missing closing ]'' whole)"
| "class_items whole (c # t) =
     (if c = CHR '']'' then Inr ([], t)
      else (case t of
          d # h # t' \<Rightarrow>
            if d = CHR ''-'' \<and> h \<noteq> CHR '']'' then add_range c h [c, d, h] (class_items whole t')
            else add_range c c [c] (class_items whole t)
        | _ \<Rightarrow> add_range c c [c] (class_items whole t)))"

definition parseClass :: "string \<Rightarrow> class_result" where
  "parseClass s =
     (case tl s of
        [] \<Rightarrow> class_items s []
      | c # t \<Rightarrow>
          if c = CHR ''^'' \<or> c = CHR '']'' then Inl unsupported else class_items s (c # t))"

definition digit_val :: "char \<Rightarrow> nat" where
  "digit_val c = of_char c - of_char CHR ''0''"

definition parseInt :: "string \<Rightarrow> nat option" where
  "parseInt ds =
     (if ds = [] \<or> (length ds \<ge> 2 \<and> hd ds = CHR ''0'') then None
      else Some (foldl (\<lambda>n c. 10 * n + digit_val c) 0 ds))"

definition parseRepeat :: "string \<Rightarrow> (nat \<times> string) option" where
  "parseRepeat t =
     (let ds = takeWhile is_digit t; u = dropWhile is_digit t in
      case u of
        [] \<Rightarrow> None
      | c # u' \<Rightarrow>
          if c = CHR ''}'' then (case parseInt ds of None \<Rightarrow> None | Some n \<Rightarrow> Some (n, u'))
          else None)"

definition lazy_next :: "string \<Rightarrow> bool" where
  "lazy_next t = (case t of [] \<Rightarrow> False | c # _ \<Rightarrow> c = CHR ''?'')"

datatype token =
    TLeftParen
  | TVerticalBar
  | TRightParen
  | TOperand regexp
  | TStar
  | TPlus
  | TQuest
  | TRepeat nat string

definition lex :: "string \<Rightarrow> string + (token \<times> string)" where
  "lex s = (case s of [] \<Rightarrow> Inl unsupported | c # t \<Rightarrow>
     (if c = CHR ''('' then (if lazy_next t then Inl unsupported else Inr (TLeftParen, t))
      else if c = CHR ''|'' then Inr (TVerticalBar, t)
      else if c = CHR '')'' then Inr (TRightParen, t)
      else if c = CHR ''^'' then Inr (TOperand BeginText, t)
      else if c = CHR ''$'' then Inr (TOperand EndText, t)
      else if c = CHR ''['' then
        (case parseClass s of Inl e \<Rightarrow> Inl e | Inr (rs, u) \<Rightarrow> Inr (TOperand (CharClass rs), u))
      else if c = CHR ''*'' then (if lazy_next t then Inl unsupported else Inr (TStar, t))
      else if c = CHR ''+'' then (if lazy_next t then Inl unsupported else Inr (TPlus, t))
      else if c = CHR ''?'' then (if lazy_next t then Inl unsupported else Inr (TQuest, t))
      else if c = CHR ''{'' then
        (case parseRepeat t of
           None \<Rightarrow> Inl unsupported
         | Some (n, u) \<Rightarrow>
             if n > 1000 then
               Inl (syntax_error ''invalid repeat count'' (take (length s - length u) s))
             else if lazy_next u then Inl unsupported
             else Inr (TRepeat n (take (length s - length u) s), u))
      else if c = backslash then
        (case t of
           [] \<Rightarrow> Inl (syntax_error ''trailing backslash at end of expression'' [])
         | d # u \<Rightarrow>
             if d = CHR ''d'' then Inr (TOperand (CharClass [(CHR ''0'', CHR ''9'')]), u)
             else if is_ascii d \<and> \<not> isalnum d then Inr (TOperand (Literal d), u)
             else Inl unsupported)
      else if c = CHR ''.'' \<or> \<not> is_ascii c then Inl unsupported
      else Inr (TOperand (Literal c), t)))"

record parser =
  repeated :: bool
  frame :: frame
  stack :: "frame list"

definition repeat :: "string \<Rightarrow> (regexp \<Rightarrow> regexp) \<Rightarrow> parser \<Rightarrow> string + parser" where
  "repeat opstr mk p =
     (if repeated p then Inl unsupported
      else (case snd (frame p) of
          [] \<Rightarrow> Inl (syntax_error ''missing argument to repetition operator'' opstr)
        | r # cur \<Rightarrow> Inr (p\<lparr>repeated := True, frame := (fst (frame p), mk r # cur)\<rparr>)))"

definition push :: "regexp \<Rightarrow> parser \<Rightarrow> parser" where
  "push r p = p\<lparr>repeated := False, frame := (fst (frame p), r # snd (frame p))\<rparr>"

fun shift :: "string \<Rightarrow> token \<Rightarrow> parser \<Rightarrow> string + parser" where
  "shift pat TLeftParen p =
     Inr \<lparr>repeated = False, frame = ([], []), stack = frame p # stack p\<rparr>"
| "shift pat TVerticalBar p =
     Inr (p\<lparr>repeated := False, frame := (mk_concat (rev (snd (frame p))) # fst (frame p), [])\<rparr>)"
| "shift pat TRightParen p =
     (case stack p of
        [] \<Rightarrow> Inl (syntax_error ''unexpected )'' pat)
      | up # frs \<Rightarrow>
          Inr \<lparr>repeated = False,
               frame = (fst up, Capture (close_frame (frame p)) # snd up),
               stack = frs\<rparr>)"
| "shift pat (TOperand r) p = Inr (push r p)"
| "shift pat TStar p = repeat ''*'' Star p"
| "shift pat TPlus p = repeat ''+'' Plus p"
| "shift pat TQuest p = repeat ''?'' Quest p"
| "shift pat (TRepeat n opstr) p =
     (case snd (frame p) of
        [] \<Rightarrow> repeat opstr (Repeat n) p
      | r # cur \<Rightarrow> if has_repeat r then Inl unsupported else repeat opstr (Repeat n) p)"

lemma add_range_Inr: "add_range lo hi rng res = Inr (rs, u) \<Longrightarrow> \<exists>rs'. res = Inr (rs', u)"
  by (auto simp: add_range_def split: if_splits sum.splits)

lemma class_items_close: "class_items w (CHR '']'' # t) = Inr ([], t)"
  by simp

lemma class_items_range:
  "c \<noteq> CHR '']'' \<Longrightarrow> h \<noteq> CHR '']'' \<Longrightarrow>
   class_items w (c # CHR ''-'' # h # t) = add_range c h [c, CHR ''-'', h] (class_items w t)"
  by (subst class_items.simps) (simp del: class_items.simps)

lemma class_items_single:
  "c \<noteq> CHR '']'' \<Longrightarrow> \<not> (\<exists>h t'. t = CHR ''-'' # h # t' \<and> h \<noteq> CHR '']'') \<Longrightarrow>
   class_items w (c # t) = add_range c c [c] (class_items w t)"
  by (subst class_items.simps) (auto simp del: class_items.simps split: list.split)

lemma class_items_shorter: "class_items w t = Inr (rs, u) \<Longrightarrow> length u < length t"
proof (induction "length t" arbitrary: t rs u rule: less_induct)
  case less
  show ?case
  proof (cases t)
    case Nil
    with less.prems show ?thesis by simp
  next
    case (Cons c t0)
    show ?thesis
    proof (cases "c = CHR '']''")
      case True
      with less.prems Cons show ?thesis by (simp add: class_items_close del: class_items.simps)
    next
      case False
      have "\<exists>t1 rs'. class_items w t1 = Inr (rs', u) \<and> length t1 \<le> length t0"
      proof (cases "\<exists>h t'. t0 = CHR ''-'' # h # t' \<and> h \<noteq> CHR '']''")
        case True
        then obtain h t' where t: "t0 = CHR ''-'' # h # t'" "h \<noteq> CHR '']''" by blast
        with less.prems Cons False
        have "add_range c h [c, CHR ''-'', h] (class_items w t') = Inr (rs, u)"
          by (simp add: class_items_range del: class_items.simps)
        then obtain rs' where "class_items w t' = Inr (rs', u)" by (blast dest: add_range_Inr)
        moreover have "length t' \<le> length t0" using t by simp
        ultimately show ?thesis by blast
      next
        case nr: False
        with less.prems Cons False
        have "add_range c c [c] (class_items w t0) = Inr (rs, u)"
          by (simp add: class_items_single del: class_items.simps)
        then obtain rs' where "class_items w t0 = Inr (rs', u)" by (blast dest: add_range_Inr)
        then show ?thesis by blast
      qed
      then obtain t1 rs' where t1: "class_items w t1 = Inr (rs', u)" "length t1 \<le> length t0"
        by blast
      from t1(2) Cons have "length t1 < length t" by simp
      from less.hyps[OF this t1(1)] t1(2) Cons show ?thesis by simp
    qed
  qed
qed

declare class_items.simps [simp del]

lemma parseClass_shorter: "parseClass (c # t) = Inr (rs, u) \<Longrightarrow> length u < Suc (length t)"
proof -
  assume a: "parseClass (c # t) = Inr (rs, u)"
  show ?thesis
  proof (cases t)
    case Nil
    with a show ?thesis by (simp add: parseClass_def class_items.simps)
  next
    case (Cons d t')
    with a have "class_items (c # t) (d # t') = Inr (rs, u)"
      by (simp add: parseClass_def split: if_splits)
    then have "length u < length (d # t')" by (rule class_items_shorter)
    with Cons show ?thesis by simp
  qed
qed

lemma parseRepeat_shorter: "parseRepeat t = Some (n, u) \<Longrightarrow> length u < length t"
proof -
  assume a: "parseRepeat t = Some (n, u)"
  have "dropWhile is_digit t = CHR ''}'' # u"
  proof (cases "dropWhile is_digit t")
    case Nil
    with a show ?thesis by (simp add: parseRepeat_def)
  next
    case (Cons c u')
    with a show ?thesis
      by (simp add: parseRepeat_def split: if_splits option.splits)
  qed
  then have "length (dropWhile is_digit t) = Suc (length u)" by simp
  moreover have "length (dropWhile is_digit t) \<le> length t" by (rule length_dropWhile_le)
  ultimately show ?thesis by simp
qed

lemma lex_shorter: "lex s = Inr (tok, u) \<Longrightarrow> length u < length s"
proof (cases s)
  case Nil
  assume "lex s = Inr (tok, u)"
  with Nil show ?thesis by (simp add: lex_def)
next
  case (Cons c t)
  assume a: "lex s = Inr (tok, u)"
  consider (cls) "c = CHR ''[''" | (rep) "c = CHR ''{''" | (esc) "c = backslash"
    | (other) "c \<noteq> CHR ''[''" "c \<noteq> CHR ''{''" "c \<noteq> backslash" by blast
  then show ?thesis
  proof cases
    case cls
    with a Cons obtain rs where "parseClass (c # t) = Inr (rs, u)"
      by (auto simp: lex_def split: sum.splits)
    with Cons show ?thesis by (auto dest: parseClass_shorter)
  next
    case rep
    with a Cons obtain n where "parseRepeat t = Some (n, u)"
      by (auto simp: lex_def backslash_def split: option.splits if_splits)
    with Cons show ?thesis by (auto dest: parseRepeat_shorter)
  next
    case esc
    with a Cons show ?thesis
      by (auto simp: lex_def backslash_def split: list.splits if_splits)
  next
    case other
    with a Cons show ?thesis
      by (auto simp: lex_def split: if_splits)
  qed
qed

function parse :: "string \<Rightarrow> string \<Rightarrow> parser \<Rightarrow> string + regexp" where
  "parse pat s p =
     (if s = [] then
        (if stack p = [] then Inr (close_frame (frame p))
         else Inl (syntax_error ''missing closing )'' pat))
      else (case lex s of
          Inl e \<Rightarrow> Inl e
        | Inr (tok, u) \<Rightarrow>
            (case shift pat tok p of
               Inl e \<Rightarrow> Inl e
             | Inr p' \<Rightarrow> parse pat u p')))"
  by pat_completeness auto
termination
  by (relation "measure (\<lambda>(pat, s, p). length s)") (auto dest: lex_shorter)

declare parse.simps [simp del]

definition Compile :: compiler where
  "Compile pat =
     (if length pat > 1000 then Inl unsupported
      else parse pat pat \<lparr>repeated = False, frame = ([], []), stack = []\<rparr>)"

text \<open>
  The package-level \<^verbatim>\<open>regexp.MatchString(pattern, s)\<close> compiles the pattern at every call
  and answers \<open>false\<close>, with the error, when it does not compile.
\<close>

definition regexp_MatchString :: "compiler \<Rightarrow> string \<Rightarrow> string \<Rightarrow> bool \<times> string option" where
  "regexp_MatchString compile pattern s =
     (case compile pattern of
        Inl err \<Rightarrow> (False, Some err)
      | Inr re \<Rightarrow> (MatchString re s, None))"

subsection \<open>Lower-casing\<close>

text \<open>
  \<^verbatim>\<open>strings.ToLower\<close> maps every code point of its argument to lower case. On the bytes of
  a string this is: an ASCII capital becomes the ASCII small letter; the two code points
  outside ASCII whose lower case is an ASCII letter, U+0130 (bytes \<open>0xC4 0xB0\<close>, lower
  case \<open>i\<close>) and U+212A (bytes \<open>0xE2 0x84 0xAA\<close>, lower case \<open>k\<close>), become that letter;
  every other byte outside ASCII belongs to a code point whose lower case is again outside
  ASCII, and is kept as it is here. So \<open>ToLower v = w\<close> for a string \<open>w\<close> of ASCII
  characters says what the Go comparison \<^verbatim>\<open>strings.ToLower(v) == w\<close> says.
\<close>

definition lower_byte :: "char \<Rightarrow> char" where
  "lower_byte c = (if CHR ''A'' \<le> c \<and> c \<le> CHR ''Z'' then char_of (of_char c + (32::nat)) else c)"

fun ToLower :: "string \<Rightarrow> string" where
  "ToLower [] = []"
| "ToLower [c] = [lower_byte c]"
| "ToLower [c, d] =
     (if c = CHR 0xC4 \<and> d = CHR 0xB0 then ''i'' else lower_byte c # ToLower [d])"
| "ToLower (c # d # e # cs) =
     (if c = CHR 0xC4 \<and> d = CHR 0xB0 then CHR ''i'' # ToLower (e # cs)
      else if c = CHR 0xE2 \<and> d = CHR 0x84 \<and> e = CHR 0xAA then CHR ''k'' # ToLower cs
      else lower_byte c # ToLower (d # e # cs))"

section \<open>The query validator\<close>

text \<open>
  \<^verbatim>\<open>
  type QueryValidationError struct { Parameter, Value, Message string }
  type QueryValidator struct {
      paramPatterns  map[string]*regexp.Regexp
      typeValidators map[string]func(string) bool
  }
  \<close>
  A Go map is a partial function. A type validator is a predicate on strings: a Go
  function value that always returns and touches nothing but its argument, as the three
  built-in validators do.
\<close>

record QueryValidationError =
  Parameter :: string
  Value :: string
  Message :: string

record QueryValidator =
  paramPatterns :: "string \<rightharpoonup> regexp"
  typeValidators :: "string \<rightharpoonup> (string \<Rightarrow> bool)"

text \<open>
  \<^verbatim>\<open>AddParamPattern\<close> returns the validator as the call leaves it, and the returned
  \<^verbatim>\<open>error\<close>: \<open>None\<close> for \<^verbatim>\<open>nil\<close>, otherwise the message built by \<^verbatim>\<open>fmt.Errorf\<close> from the
  format \<^verbatim>\<open>"invalid pattern for %s: %v"\<close>.
\<close>

definition AddParamPattern ::
  "compiler \<Rightarrow> string \<Rightarrow> string \<Rightarrow> QueryValidator \<Rightarrow> QueryValidator \<times> string option" where
  "AddParamPattern compile name pattern qv =
     (case compile pattern of
        Inl err \<Rightarrow> (qv, Some (''invalid pattern for '' @ name @ '': '' @ err))
      | Inr regex \<Rightarrow> (qv\<lparr>paramPatterns := (paramPatterns qv)(name \<mapsto> regex)\<rparr>, None))"

definition AddTypeValidator :: "string \<Rightarrow> (string \<Rightarrow> bool) \<Rightarrow> QueryValidator \<Rightarrow> QueryValidator" where
  "AddTypeValidator name validator qv =
     qv\<lparr>typeValidators := (typeValidators qv)(name \<mapsto> validator)\<rparr>"

text \<open>The three pattern texts of \<^verbatim>\<open>NewQueryValidator\<close>, character by character.\<close>

definition default_pattern :: string where
  "default_pattern = ''^[a-zA-Z][a-zA-Z0-9_]*$''"

definition number_pattern :: string where
  "number_pattern =
     ''^-?'' @ [backslash] @ ''d+('' @ [backslash] @ ''.'' @ [backslash] @ ''d+)?$''"

definition date_pattern :: string where
  "date_pattern =
     ''^'' @ [backslash] @ ''d{4}-'' @ [backslash] @ ''d{2}-'' @ [backslash] @ ''d{2}$''"

definition number_validator :: "compiler \<Rightarrow> string \<Rightarrow> bool" where
  "number_validator compile v = (let (matched, _) = regexp_MatchString compile number_pattern v in matched)"

definition boolean_validator :: "string \<Rightarrow> bool" where
  "boolean_validator v =
     (let v = ToLower v in v = ''true'' \<or> v = ''false'' \<or> v = ''1'' \<or> v = ''0'')"

definition date_validator :: "compiler \<Rightarrow> string \<Rightarrow> bool" where
  "date_validator compile v = (let (matched, _) = regexp_MatchString compile date_pattern v in matched)"

definition NewQueryValidator :: "compiler \<Rightarrow> QueryValidator" where
  "NewQueryValidator compile =
     (let qv = \<lparr>paramPatterns = Map.empty, typeValidators = Map.empty\<rparr>;
          (qv, _) = AddParamPattern compile ''default'' default_pattern qv;
          qv = qv\<lparr>typeValidators := (typeValidators qv)(''number'' \<mapsto> number_validator compile)\<rparr>;
          qv = qv\<lparr>typeValidators := (typeValidators qv)(''boolean'' \<mapsto> boolean_validator)\<rparr>;
          qv = qv\<lparr>typeValidators := (typeValidators qv)(''date'' \<mapsto> date_validator compile)\<rparr>
      in qv)"

definition validateParamName :: "QueryValidator \<Rightarrow> string \<Rightarrow> bool" where
  "validateParamName qv param =
     (case paramPatterns qv ''default'' of
        None \<Rightarrow> True
      | Some pattern \<Rightarrow> MatchString pattern param)"

definition validateParamValue :: "QueryValidator \<Rightarrow> string \<Rightarrow> string \<Rightarrow> bool" where
  "validateParamValue qv val expectedType =
     (case typeValidators qv expectedType of
        None \<Rightarrow> True
      | Some validator \<Rightarrow> validator val)"

text \<open>
  \<^verbatim>\<open>ValidateQuery\<close> ranges over the map \<^verbatim>\<open>c.Queries()\<close>. Go leaves the order of that
  iteration open, so the loop takes the pairs in the order the iteration happens to
  produce them: \<open>range_order m qs\<close> says that \<open>qs\<close> is one possible order for the map \<open>m\<close>.
  The loop state is the slice \<^verbatim>\<open>errors\<close> together with the two objects the method could
  write to through its references, the validator and the rule map.
\<close>

definition range_order :: "(string \<rightharpoonup> string) \<Rightarrow> (string \<times> string) list \<Rightarrow> bool" where
  "range_order m qs = (distinct (map fst qs) \<and> map_of qs = m)"

type_synonym vq_state = "QueryValidationError list \<times> QueryValidator \<times> (string \<rightharpoonup> string)"

fun ValidateQuery_loop :: "(string \<times> string) list \<Rightarrow> vq_state \<Rightarrow> vq_state" where
  "ValidateQuery_loop [] st = st"
| "ValidateQuery_loop ((param, val) # rest) (errors, qv, rules) =
     (if \<not> validateParamName qv param then
        ValidateQuery_loop rest
          (errors @ [\<lparr>Parameter = param, Value = val,
                       Message = ''invalid parameter name format''\<rparr>], qv, rules)
      else (case rules param of
          None \<Rightarrow>
            ValidateQuery_loop rest
              (errors @ [\<lparr>Parameter = param, Value = val,
                           Message = ''unexpected parameter''\<rparr>], qv, rules)
        | Some expectedType \<Rightarrow>
            if \<not> validateParamValue qv val expectedType then
              ValidateQuery_loop rest
                (errors @ [\<lparr>Parameter = param, Value = val,
                             Message = ''invalid value for type '' @ expectedType\<rparr>], qv, rules)
            else ValidateQuery_loop rest (errors, qv, rules)))"

definition ValidateQuery ::
  "QueryValidator \<Rightarrow> (string \<times> string) list \<Rightarrow> (string \<rightharpoonup> string) \<Rightarrow> vq_state" where
  "ValidateQuery qv queries rules = ValidateQuery_loop queries ([], qv, rules)"

section \<open>The specification's wording\<close>

text \<open>
  The definitions of this section are written from the sentences of the specification, to be
  compared with the functions above, which are written from the source.

  \<open>three_step_check\<close> is the check of one observed pair in three steps: the name format
  (only when a pattern is registered under \<open>default\<close>), then the declaration of the
  parameter in the rules, then the type validator registered under the expected tag (only
  when there is one). Each step that fails emits its record and ends the check.
\<close>

definition three_step_check ::
  "QueryValidator \<Rightarrow> (string \<rightharpoonup> string) \<Rightarrow> string \<times> string \<Rightarrow> QueryValidationError list" where
  "three_step_check qv rules q =
     (let param = fst q; val = snd q;
          name_fails = (case paramPatterns qv ''default'' of
                          None \<Rightarrow> False
                        | Some pattern \<Rightarrow> \<not> MatchString pattern param)
      in if name_fails then
           [\<lparr>Parameter = param, Value = val, Message = ''invalid parameter name format''\<rparr>]
         else (case rules param of
             None \<Rightarrow> [\<lparr>Parameter = param, Value = val, Message = ''unexpected parameter''\<rparr>]
           | Some tag \<Rightarrow>
               (case typeValidators qv tag of
                  None \<Rightarrow> []
                | Some validator \<Rightarrow>
                    if validator val then []
                    else [\<lparr>Parameter = param, Value = val,
                            Message = ''invalid value for type '' @ tag\<rparr>])))"

text \<open>
  The three patterns, read as sets of strings: a letter followed by letters, digits and
  underscores; an optional minus sign, one or more digits and optionally a dot with one or
  more digits; four digits, two digits and two digits separated by hyphens. The fourth
  definition reads "case-insensitive" letter by letter: each ASCII capital counts as its
  small letter.
\<close>

definition spec_name_syntax :: "string \<Rightarrow> bool" where
  "spec_name_syntax s =
     (case s of
        [] \<Rightarrow> False
      | c # cs \<Rightarrow> is_letter c \<and> list_all (\<lambda>x. is_letter x \<or> is_digit x \<or> x = CHR ''_'') cs)"

definition spec_number_syntax :: "string \<Rightarrow> bool" where
  "spec_number_syntax v =
     (\<exists>sign ip fp. v = sign @ ip @ fp \<and> (sign = [] \<or> sign = ''-'')
        \<and> ip \<noteq> [] \<and> list_all is_digit ip
        \<and> (fp = [] \<or> (\<exists>ds. fp = CHR ''.'' # ds \<and> ds \<noteq> [] \<and> list_all is_digit ds)))"

definition spec_date_syntax :: "string \<Rightarrow> bool" where
  "spec_date_syntax v =
     (\<exists>y m d. v = y @ ''-'' @ m @ ''-'' @ d
        \<and> length y = 4 \<and> length m = 2 \<and> length d = 2
        \<and> list_all is_digit y \<and> list_all is_digit m \<and> list_all is_digit d)"

definition spec_boolean_syntax :: "string \<Rightarrow> bool" where
  "spec_boolean_syntax v =
     (let w = map lower_byte v in w = ''true'' \<or> w = ''false'' \<or> w = ''1'' \<or> w = ''0'')"

section \<open>Properties of the matcher\<close>

lemma set_advance: "set (advance f ps) = (\<Union>p\<in>set ps. set (f p))"
  by (simp add: advance_def)

lemma eat_iff: "(b', u) \<in> set (eat P (b, t)) \<longleftrightarrow> (\<not> b' \<and> (\<exists>c. t = c # u \<and> P c))"
  by (auto simp: eat_def split: list.splits)

lemma closure_eat:
  "(b', u) \<in> set (closure n (eat P) ps) \<longleftrightarrow>
     (\<exists>b t ds. (b, t) \<in> set ps \<and> t = ds @ u \<and> length ds \<le> n \<and> list_all P ds
        \<and> (b' \<longleftrightarrow> b \<and> ds = []))"
proof (induction n arbitrary: ps)
  case 0
  show ?case by auto
next
  case (Suc n)
  let ?R = "\<lambda>k ps. \<exists>b t ds. (b, t) \<in> set ps \<and> t = ds @ u \<and> length ds \<le> k \<and> list_all P ds
        \<and> (b' \<longleftrightarrow> b \<and> ds = [])"
  have step: "?R n (advance (eat P) ps) \<longleftrightarrow>
      (\<exists>b t ds. (b, t) \<in> set ps \<and> t = ds @ u \<and> length ds \<le> Suc n \<and> list_all P ds
        \<and> ds \<noteq> [] \<and> \<not> b')"
    (is "?A \<longleftrightarrow> ?B")
  proof
    assume ?A
    then obtain b t ds where h: "(b, t) \<in> set (advance (eat P) ps)" "t = ds @ u"
      "length ds \<le> n" "list_all P ds" "b' \<longleftrightarrow> b \<and> ds = []" by blast
    from h(1) obtain b0 t0 where h0: "(b0, t0) \<in> set ps" "(b, t) \<in> set (eat P (b0, t0))"
      by (auto simp: set_advance)
    from h0(2) obtain c where c: "\<not> b" "t0 = c # t" "P c" by (auto simp: eat_iff)
    have "(b0, t0) \<in> set ps \<and> t0 = (c # ds) @ u \<and> length (c # ds) \<le> Suc n
       \<and> list_all P (c # ds) \<and> c # ds \<noteq> [] \<and> \<not> b'"
      using h h0 c by simp
    then show ?B by blast
  next
    assume ?B
    then obtain b t ds where h: "(b, t) \<in> set ps" "t = ds @ u" "length ds \<le> Suc n"
      "list_all P ds" "ds \<noteq> []" "\<not> b'" by blast
    then obtain c ds' where ds: "ds = c # ds'" by (cases ds) auto
    with h have "(False, ds' @ u) \<in> set (eat P (b, t))" by (simp add: eat_iff)
    with h(1) have "(False, ds' @ u) \<in> set (advance (eat P) ps)"
      by (auto simp: set_advance)
    moreover have "length ds' \<le> n" "list_all P ds'" using h ds by simp_all
    ultimately have "(False, ds' @ u) \<in> set (advance (eat P) ps) \<and> ds' @ u = ds' @ u
       \<and> length ds' \<le> n \<and> list_all P ds' \<and> (b' \<longleftrightarrow> False \<and> ds' = [])"
      using h(6) by simp
    then show ?A by blast
  qed
  have "(b', u) \<in> set (closure (Suc n) (eat P) ps) \<longleftrightarrow>
        (b', u) \<in> set ps \<or> ?R n (advance (eat P) ps)"
    by (simp add: Suc.IH)
  also have "\<dots> \<longleftrightarrow> (b', u) \<in> set ps \<or>
      (\<exists>b t ds. (b, t) \<in> set ps \<and> t = ds @ u \<and> length ds \<le> Suc n \<and> list_all P ds
        \<and> ds \<noteq> [] \<and> \<not> b')"
    by (simp only: step)
  also have "\<dots> \<longleftrightarrow> ?R (Suc n) ps" (is "?C \<longleftrightarrow> ?D")
  proof
    assume ?C
    then show ?D
    proof
      assume "(b', u) \<in> set ps"
      then have "(b', u) \<in> set ps \<and> u = [] @ u \<and> length ([]::string) \<le> Suc n
         \<and> list_all P [] \<and> (b' \<longleftrightarrow> b' \<and> ([]::string) = [])" by simp
      then show ?D by blast
    next
      assume "\<exists>b t ds. (b, t) \<in> set ps \<and> t = ds @ u \<and> length ds \<le> Suc n \<and> list_all P ds
        \<and> ds \<noteq> [] \<and> \<not> b'"
      then obtain b t ds where "(b, t) \<in> set ps" "t = ds @ u" "length ds \<le> Suc n"
        "list_all P ds" "ds \<noteq> []" "\<not> b'" by blast
      then have "(b, t) \<in> set ps \<and> t = ds @ u \<and> length ds \<le> Suc n \<and> list_all P ds
        \<and> (b' \<longleftrightarrow> b \<and> ds = [])" by simp
      then show ?D by blast
    qed
  next
    assume ?D
    then obtain b t ds where h: "(b, t) \<in> set ps" "t = ds @ u" "length ds \<le> Suc n"
      "list_all P ds" "b' \<longleftrightarrow> b \<and> ds = []" by blast
    show ?C
    proof (cases "ds = []")
      case True
      with h show ?thesis by simp
    next
      case False
      with h have "(b, t) \<in> set ps \<and> t = ds @ u \<and> length ds \<le> Suc n \<and> list_all P ds
        \<and> ds \<noteq> [] \<and> \<not> b'" by simp
      then show ?thesis by blast
    qed
  qed
  finally show ?case .
qed

lemma run_Literal_eat: "run (Literal c) = eat (\<lambda>x. x = c)"
  by (rule ext) simp

lemma run_CharClass_eat: "run (CharClass rs) = eat (in_class rs)"
  by (rule ext) simp

lemma run_Star_eat:
  assumes "run r = eat P"
  shows "(b', u) \<in> set (run (Star r) (b, t)) \<longleftrightarrow>
           (\<exists>ds. t = ds @ u \<and> list_all P ds \<and> (b' \<longleftrightarrow> b \<and> ds = []))"
proof -
  have "(b', u) \<in> set (run (Star r) (b, t)) \<longleftrightarrow>
        (\<exists>ds. t = ds @ u \<and> length ds \<le> length t \<and> list_all P ds \<and> (b' \<longleftrightarrow> b \<and> ds = []))"
    by (simp add: assms closure_eat)
  also have "\<dots> \<longleftrightarrow> (\<exists>ds. t = ds @ u \<and> list_all P ds \<and> (b' \<longleftrightarrow> b \<and> ds = []))"
    by auto
  finally show ?thesis .
qed

lemma run_Plus_eat:
  assumes "run r = eat P"
  shows "(b', u) \<in> set (run (Plus r) (b, t)) \<longleftrightarrow>
           (\<not> b' \<and> (\<exists>ds. ds \<noteq> [] \<and> t = ds @ u \<and> list_all P ds))"
    (is "?L \<longleftrightarrow> ?R")
proof
  assume ?L
  then obtain b1 t1 ds where h: "(b1, t1) \<in> set (eat P (b, t))" "t1 = ds @ u"
    "list_all P ds" "b' \<longleftrightarrow> b1 \<and> ds = []"
    by (auto simp: assms closure_eat)
  from h(1) obtain c where c: "\<not> b1" "t = c # t1" "P c" by (auto simp: eat_iff)
  have "c # ds \<noteq> [] \<and> t = (c # ds) @ u \<and> list_all P (c # ds)" using h c by simp
  moreover have "\<not> b'" using h c by simp
  ultimately show ?R by blast
next
  assume ?R
  then obtain ds where h: "\<not> b'" "ds \<noteq> []" "t = ds @ u" "list_all P ds" by blast
  then obtain c ds' where ds: "ds = c # ds'" by (cases ds) auto
  have "(False, ds' @ u) \<in> set (eat P (b, t))" using h ds by (simp add: eat_iff)
  moreover have "length ds' \<le> length t" "list_all P ds'" using h ds by simp_all
  ultimately have "\<exists>b1 t1 ds1. (b1, t1) \<in> set (eat P (b, t)) \<and> t1 = ds1 @ u
     \<and> length ds1 \<le> length t \<and> list_all P ds1 \<and> (b' \<longleftrightarrow> b1 \<and> ds1 = [])"
    using h(1) by blast
  then show ?L by (simp add: assms closure_eat)
qed

lemma funpow_advance_eat:
  "(b', u) \<in> set ((advance (eat P) ^^ n) [(b, t)]) \<longleftrightarrow>
     (\<exists>ds. t = ds @ u \<and> length ds = n \<and> list_all P ds \<and> (b' \<longleftrightarrow> b \<and> n = 0))"
proof (induction n arbitrary: b' u)
  case 0
  show ?case by auto
next
  case (Suc n)
  have "(b', u) \<in> set ((advance (eat P) ^^ Suc n) [(b, t)]) \<longleftrightarrow>
        (\<exists>b1 t1. (b1, t1) \<in> set ((advance (eat P) ^^ n) [(b, t)]) \<and> (b', u) \<in> set (eat P (b1, t1)))"
    by (auto simp: set_advance)
  also have "\<dots> \<longleftrightarrow> (\<exists>ds c. t = ds @ c # u \<and> length ds = n \<and> list_all P ds \<and> P c \<and> \<not> b')"
    by (auto simp: Suc.IH eat_iff)
  also have "\<dots> \<longleftrightarrow> (\<exists>ds. t = ds @ u \<and> length ds = Suc n \<and> list_all P ds \<and> \<not> b')"
    (is "?A \<longleftrightarrow> ?B")
  proof
    assume ?A
    then obtain ds c where "t = ds @ c # u" "length ds = n" "list_all P ds" "P c" "\<not> b'"
      by blast
    then have "t = (ds @ [c]) @ u \<and> length (ds @ [c]) = Suc n \<and> list_all P (ds @ [c]) \<and> \<not> b'"
      by simp
    then show ?B by blast
  next
    assume ?B
    then obtain ds where h: "t = ds @ u" "length ds = Suc n" "list_all P ds" "\<not> b'" by blast
    then obtain ds' c where ds: "ds = ds' @ [c]" by (cases ds rule: rev_cases) auto
    with h have "t = ds' @ c # u \<and> length ds' = n \<and> list_all P ds' \<and> P c \<and> \<not> b'" by simp
    then show ?A by blast
  qed
  finally show ?case by simp
qed

lemma run_Repeat_eat:
  assumes "run r = eat P"
  shows "(b', u) \<in> set (run (Repeat n r) (b, t)) \<longleftrightarrow>
     (\<exists>ds. t = ds @ u \<and> length ds = n \<and> list_all P ds \<and> (b' \<longleftrightarrow> b \<and> n = 0))"
  by (simp add: assms funpow_advance_eat)

lemma run_Concat_iff:
  "q \<in> set (run (Concat r1 r2) p) \<longleftrightarrow> (\<exists>m. m \<in> set (run r1 p) \<and> q \<in> set (run r2 m))"
  by (auto simp: set_advance)

lemma starts_cases: "p \<in> set (starts b s) \<Longrightarrow> p = (b, s) \<or> \<not> fst p"
  by (induction b s rule: starts.induct) auto

lemma starts_head: "(b, s) \<in> set (starts b s)"
  by (cases s) simp_all

lemma MatchString_anchored:
  "MatchString (Concat BeginText r) s \<longleftrightarrow> run r (True, s) \<noteq> []"
proof -
  have "run (Concat BeginText r) p = [] " if "\<not> fst p" for p
    using that by (simp add: advance_def)
  moreover have "run (Concat BeginText r) (True, s) = [] \<longleftrightarrow> run r (True, s) = []"
    by (simp add: advance_def)
  ultimately show ?thesis
    unfolding MatchString_def list_ex_iff
    using starts_head[of True s] starts_cases[of _ True s] by blast
qed

lemma in_class_letter: "in_class [(CHR ''a'', CHR ''z''), (CHR ''A'', CHR ''Z'')] = is_letter"
  by (rule ext) (auto simp: in_class_def is_letter_def)

lemma in_class_word:
  "in_class [(CHR ''a'', CHR ''z''), (CHR ''A'', CHR ''Z''), (CHR ''0'', CHR ''9''),
             (CHR ''_'', CHR ''_'')] = (\<lambda>x. is_letter x \<or> is_digit x \<or> x = CHR ''_'')"
  by (rule ext) (auto simp: in_class_def is_letter_def is_digit_def)

lemma in_class_digit: "in_class [(CHR ''0'', CHR ''9'')] = is_digit"
  by (rule ext) (auto simp: in_class_def is_digit_def)

lemma run_nonempty: "run r p \<noteq> [] \<longleftrightarrow> (\<exists>b u. (b, u) \<in> set (run r p))"
  by (cases "run r p") auto

lemma run_CharClass_iff:
  "(b', u) \<in> set (run (CharClass rs) (b, t)) \<longleftrightarrow> (\<not> b' \<and> (\<exists>c. t = c # u \<and> in_class rs c))"
  by (simp add: eat_iff)

lemma run_Literal_iff:
  "(b', u) \<in> set (run (Literal c) (b, t)) \<longleftrightarrow> (\<not> b' \<and> t = c # u)"
  by (auto simp: eat_iff)

lemma run_EndText_iff:
  "(b', u) \<in> set (run EndText (b, t)) \<longleftrightarrow> (t = [] \<and> u = [] \<and> b' = b)"
  by auto

lemma run_Quest_iff:
  "q \<in> set (run (Quest r) p) \<longleftrightarrow> (q \<in> set (run r p) \<or> q = p)"
  by auto

lemma run_Capture_iff: "q \<in> set (run (Capture r) p) \<longleftrightarrow> q \<in> set (run r p)"
  by simp

lemmas run_iffs =
  run_Concat_iff run_CharClass_iff run_Literal_iff run_EndText_iff run_Quest_iff run_Capture_iff
  run_Star_eat[OF run_CharClass_eat] run_Plus_eat[OF run_CharClass_eat]
  run_Repeat_eat[OF run_CharClass_eat]

lemma run_Concat_Literal:
  "(b', u) \<in> set (run (Concat (Literal c) r) (b, t)) \<longleftrightarrow>
     (\<exists>t1. t = c # t1 \<and> (b', u) \<in> set (run r (False, t1)))"
  by (auto simp: run_Concat_iff run_Literal_iff simp del: run.simps)

lemma run_Concat_CharClass:
  "(b', u) \<in> set (run (Concat (CharClass rs) r) (b, t)) \<longleftrightarrow>
     (\<exists>c t1. t = c # t1 \<and> in_class rs c \<and> (b', u) \<in> set (run r (False, t1)))"
  by (auto simp: run_Concat_iff run_CharClass_iff simp del: run.simps)

lemma run_Concat_Star:
  "(b', u) \<in> set (run (Concat (Star (CharClass rs)) r) (b, t)) \<longleftrightarrow>
     (\<exists>ds t1. t = ds @ t1 \<and> list_all (in_class rs) ds
        \<and> (b', u) \<in> set (run r (b \<and> ds = [], t1)))"
  by (auto simp: run_Concat_iff run_Star_eat[OF run_CharClass_eat] simp del: run.simps)

lemma run_Concat_Plus:
  "(b', u) \<in> set (run (Concat (Plus (CharClass rs)) r) (b, t)) \<longleftrightarrow>
     (\<exists>ds t1. ds \<noteq> [] \<and> t = ds @ t1 \<and> list_all (in_class rs) ds
        \<and> (b', u) \<in> set (run r (False, t1)))"
  by (auto simp: run_Concat_iff run_Plus_eat[OF run_CharClass_eat] simp del: run.simps)

lemma run_Concat_Repeat:
  "(b', u) \<in> set (run (Concat (Repeat n (CharClass rs)) r) (b, t)) \<longleftrightarrow>
     (\<exists>ds t1. t = ds @ t1 \<and> length ds = n \<and> list_all (in_class rs) ds
        \<and> (b', u) \<in> set (run r (b \<and> n = 0, t1)))"
  by (auto simp: run_Concat_iff run_Repeat_eat[OF run_CharClass_eat] simp del: run.simps)

lemma run_Concat_Quest:
  "q \<in> set (run (Concat (Quest r1) r) p) \<longleftrightarrow>
     (q \<in> set (run (Concat r1 r) p) \<or> q \<in> set (run r p))"
  by (simp only: run_Concat_iff run_Quest_iff) blast

lemma run_Concat_Capture:
  "q \<in> set (run (Concat (Capture r1) r) p) \<longleftrightarrow> q \<in> set (run (Concat r1 r) p)"
  by (simp only: run_Concat_iff run_Capture_iff)

lemma run_Concat_assoc:
  "q \<in> set (run (Concat (Concat r1 r2) r3) p) \<longleftrightarrow> q \<in> set (run (Concat r1 (Concat r2 r3)) p)"
  by (simp only: run_Concat_iff) blast

lemmas run_Concat_heads =
  run_Concat_Literal run_Concat_CharClass run_Concat_Star run_Concat_Plus run_Concat_Repeat
  run_Concat_Quest run_Concat_Capture run_Concat_assoc run_EndText_iff

section \<open>The rounds given to a starred expression are enough\<close>

text \<open>
  \<open>steps f\<close> is one round of \<open>f\<close> as a relation on positions. A round of \<open>run r\<close> either
  returns to the position it started from or reads at least one character, so a shortest
  path between two positions is no longer than the input left at its start. Hence
  \<open>Star\<close> is the reflexive and transitive closure of its argument and \<open>Plus\<close> the
  transitive closure, whatever the argument.
\<close>

definition steps :: "(pos \<Rightarrow> pos list) \<Rightarrow> (pos \<times> pos) set" where
  "steps f = {(p, q). q \<in> set (f p)}"

definition progress :: "(pos \<Rightarrow> pos list) \<Rightarrow> bool" where
  "progress f = (\<forall>p q. q \<in> set (f p) \<longrightarrow> q = p \<or> length (snd q) < length (snd p))"

lemma steps_iff: "(p, q) \<in> steps f \<longleftrightarrow> q \<in> set (f p)"
  by (simp add: steps_def)

lemma progressD: "progress f \<Longrightarrow> q \<in> set (f p) \<Longrightarrow> q = p \<or> length (snd q) < length (snd p)"
  unfolding progress_def by blast

lemma advance_steps: "x \<in> set (advance f ps) \<longleftrightarrow> (\<exists>p \<in> set ps. (p, x) \<in> steps f)"
  by (simp add: set_advance steps_iff)

lemma funpow_advance_steps:
  "q \<in> set ((advance f ^^ k) ps) \<longleftrightarrow> (\<exists>p \<in> set ps. (p, q) \<in> steps f ^^ k)"
proof (induction k arbitrary: q)
  case 0
  show ?case by simp
next
  case (Suc k)
  have "q \<in> set ((advance f ^^ Suc k) ps) \<longleftrightarrow>
        (\<exists>m. m \<in> set ((advance f ^^ k) ps) \<and> (m, q) \<in> steps f)"
    by (simp add: advance_steps Bex_def del: split_paired_Ex)
  also have "\<dots> \<longleftrightarrow> (\<exists>m. (\<exists>p \<in> set ps. (p, m) \<in> steps f ^^ k) \<and> (m, q) \<in> steps f)"
    by (simp only: Suc.IH)
  also have "\<dots> \<longleftrightarrow> (\<exists>p \<in> set ps. (p, q) \<in> steps f ^^ Suc k)"
    by (blast intro: relpow_Suc_I elim: relpow_Suc_E)
  finally show ?case .
qed

lemma closure_steps:
  "q \<in> set (closure n f ps) \<longleftrightarrow> (\<exists>k \<le> n. \<exists>p \<in> set ps. (p, q) \<in> steps f ^^ k)"
proof (induction n arbitrary: ps)
  case 0
  show ?case by simp
next
  case (Suc n)
  have "q \<in> set (closure (Suc n) f ps) \<longleftrightarrow>
        q \<in> set ps \<or> (\<exists>k \<le> n. \<exists>p \<in> set (advance f ps). (p, q) \<in> steps f ^^ k)"
    by (simp add: Suc.IH)
  also have "\<dots> \<longleftrightarrow> q \<in> set ps \<or> (\<exists>k \<le> n. \<exists>p \<in> set ps. (p, q) \<in> steps f ^^ Suc k)"
  proof -
    have "(\<exists>p \<in> set (advance f ps). (p, q) \<in> steps f ^^ k) \<longleftrightarrow>
          (\<exists>p \<in> set ps. (p, q) \<in> steps f ^^ Suc k)" for k
    proof
      assume "\<exists>p \<in> set (advance f ps). (p, q) \<in> steps f ^^ k"
      then obtain m where "m \<in> set (advance f ps)" "(m, q) \<in> steps f ^^ k" by blast
      then obtain p where "p \<in> set ps" "(p, m) \<in> steps f" "(m, q) \<in> steps f ^^ k"
        unfolding advance_steps by blast
      then have "p \<in> set ps \<and> (p, q) \<in> steps f ^^ Suc k" by (blast intro: relpow_Suc_I2)
      then show "\<exists>p \<in> set ps. (p, q) \<in> steps f ^^ Suc k" by blast
    next
      assume "\<exists>p \<in> set ps. (p, q) \<in> steps f ^^ Suc k"
      then obtain p m where "p \<in> set ps" "(p, m) \<in> steps f" "(m, q) \<in> steps f ^^ k"
        by (blast elim: relpow_Suc_E2)
      then have "m \<in> set (advance f ps) \<and> (m, q) \<in> steps f ^^ k"
        unfolding advance_steps by blast
      then show "\<exists>p \<in> set (advance f ps). (p, q) \<in> steps f ^^ k" by blast
    qed
    then show ?thesis by simp
  qed
  also have "\<dots> \<longleftrightarrow> (\<exists>k \<le> Suc n. \<exists>p \<in> set ps. (p, q) \<in> steps f ^^ k)"
    (is "?A \<longleftrightarrow> ?B")
  proof
    assume ?A
    then show ?B
    proof
      assume "q \<in> set ps"
      then have "\<exists>p \<in> set ps. (p, q) \<in> steps f ^^ 0" by simp
      then show ?B by blast
    next
      assume "\<exists>k \<le> n. \<exists>p \<in> set ps. (p, q) \<in> steps f ^^ Suc k"
      then obtain k p where "k \<le> n" "p \<in> set ps" "(p, q) \<in> steps f ^^ Suc k" by blast
      then have "Suc k \<le> Suc n \<and> p \<in> set ps \<and> (p, q) \<in> steps f ^^ Suc k" by simp
      then show ?B by blast
    qed
  next
    assume ?B
    then obtain k p where h: "k \<le> Suc n" "p \<in> set ps" "(p, q) \<in> steps f ^^ k" by blast
    show ?A
    proof (cases k)
      case 0
      with h show ?thesis by simp
    next
      case (Suc j)
      with h have "j \<le> n \<and> p \<in> set ps \<and> (p, q) \<in> steps f ^^ Suc j" by simp
      then show ?thesis by blast
    qed
  qed
  finally show ?case .
qed

lemma progress_relpow:
  assumes "progress f" "(p, q) \<in> steps f ^^ k"
  shows "q = p \<or> length (snd q) < length (snd p)"
  using assms(2)
proof (induction k arbitrary: q)
  case 0
  then show ?case by simp
next
  case (Suc k)
  then obtain m where m: "(p, m) \<in> steps f ^^ k" "(m, q) \<in> steps f" by auto
  from Suc.IH[OF m(1)] have "m = p \<or> length (snd m) < length (snd p)" .
  moreover from m(2) assms(1) have "q = m \<or> length (snd q) < length (snd m)"
    by (simp add: steps_iff progressD)
  ultimately show ?case by auto
qed

lemma short_path:
  assumes "progress f" "(p, q) \<in> steps f ^^ k"
  shows "\<exists>j. j + length (snd q) \<le> length (snd p) \<and> (p, q) \<in> steps f ^^ j"
  using assms(2)
proof (induction k arbitrary: p)
  case 0
  then have "0 + length (snd q) \<le> length (snd p) \<and> (p, q) \<in> steps f ^^ 0" by simp
  then show ?case by blast
next
  case (Suc k)
  then obtain m where m: "(p, m) \<in> steps f" "(m, q) \<in> steps f ^^ k"
    by (blast elim: relpow_Suc_E2)
  from Suc.IH[OF m(2)] obtain j where j: "j + length (snd q) \<le> length (snd m)"
    "(m, q) \<in> steps f ^^ j" by blast
  from m(1) assms(1) have "m = p \<or> length (snd m) < length (snd p)"
    by (simp add: steps_iff progressD)
  then show ?case
  proof
    assume "m = p"
    with j show ?thesis by blast
  next
    assume "length (snd m) < length (snd p)"
    with j(1) have "Suc j + length (snd q) \<le> length (snd p)" by simp
    moreover from m(1) j(2) have "(p, q) \<in> steps f ^^ Suc j" by (rule relpow_Suc_I2)
    ultimately show ?thesis by blast
  qed
qed

lemma closure_rtrancl:
  assumes "progress f"
  shows "q \<in> set (closure (length (snd p)) f [p]) \<longleftrightarrow> (p, q) \<in> (steps f)\<^sup>*"
proof
  assume "q \<in> set (closure (length (snd p)) f [p])"
  then obtain k where "(p, q) \<in> steps f ^^ k" by (auto simp: closure_steps)
  then show "(p, q) \<in> (steps f)\<^sup>*" by (rule relpow_imp_rtrancl)
next
  assume "(p, q) \<in> (steps f)\<^sup>*"
  then obtain k where "(p, q) \<in> steps f ^^ k" by (blast dest: rtrancl_imp_relpow)
  from short_path[OF assms this] obtain j where "j + length (snd q) \<le> length (snd p)"
    "(p, q) \<in> steps f ^^ j" by blast
  then have "j \<le> length (snd p) \<and> (p, q) \<in> steps f ^^ j" by simp
  then show "q \<in> set (closure (length (snd p)) f [p])" by (auto simp: closure_steps)
qed

lemma progress_eat: "progress (eat P)"
  by (auto simp: progress_def eat_def split: list.splits if_splits)

lemma progress_run: "progress (run r)"
proof (induction r)
  case (Concat r1 r2)
  show ?case
    unfolding progress_def
  proof (intro allI impI)
    fix p q assume "q \<in> set (run (Concat r1 r2) p)"
    then obtain m where "m \<in> set (run r1 p)" "q \<in> set (run r2 m)" by (auto simp: set_advance)
    with Concat have "m = p \<or> length (snd m) < length (snd p)"
      "q = m \<or> length (snd q) < length (snd m)"
      by (simp_all add: progressD)
    then show "q = p \<or> length (snd q) < length (snd p)" by auto
  qed
next
  case (Star r)
  show ?case
    unfolding progress_def
  proof (intro allI impI)
    fix p q assume "q \<in> set (run (Star r) p)"
    then obtain k where "(p, q) \<in> steps (run r) ^^ k" by (auto simp: closure_steps)
    with Star show "q = p \<or> length (snd q) < length (snd p)" by (rule progress_relpow)
  qed
next
  case (Plus r)
  show ?case
    unfolding progress_def
  proof (intro allI impI)
    fix p q assume "q \<in> set (run (Plus r) p)"
    then obtain k m where "m \<in> set (run r p)" "(m, q) \<in> steps (run r) ^^ k"
      by (auto simp: closure_steps)
    then have "(p, q) \<in> steps (run r) ^^ Suc k"
      by (blast intro: relpow_Suc_I2 steps_iff[THEN iffD2])
    with Plus show "q = p \<or> length (snd q) < length (snd p)" by (rule progress_relpow)
  qed
next
  case (Repeat n r)
  show ?case
    unfolding progress_def
  proof (intro allI impI)
    fix p q assume "q \<in> set (run (Repeat n r) p)"
    then have "(p, q) \<in> steps (run r) ^^ n" by (simp add: funpow_advance_steps)
    with Repeat show "q = p \<or> length (snd q) < length (snd p)" by (rule progress_relpow)
  qed
qed (auto simp: progress_def eat_def split: list.splits if_splits)

lemma run_Star_rtrancl: "q \<in> set (run (Star r) p) \<longleftrightarrow> (p, q) \<in> (steps (run r))\<^sup>*"
  by (simp add: closure_rtrancl[OF progress_run])

lemma run_Plus_trancl: "q \<in> set (run (Plus r) p) \<longleftrightarrow> (p, q) \<in> (steps (run r))\<^sup>+"
proof
  assume "q \<in> set (run (Plus r) p)"
  then obtain k m where "m \<in> set (run r p)" "(m, q) \<in> steps (run r) ^^ k"
    by (auto simp: closure_steps)
  then have "(p, m) \<in> steps (run r)" "(m, q) \<in> (steps (run r))\<^sup>*"
    by (simp_all add: steps_iff relpow_imp_rtrancl)
  then show "(p, q) \<in> (steps (run r))\<^sup>+" by (rule rtrancl_into_trancl2)
next
  assume "(p, q) \<in> (steps (run r))\<^sup>+"
  then obtain m where m: "(p, m) \<in> steps (run r)" "(m, q) \<in> (steps (run r))\<^sup>*"
    by (blast dest: tranclD)
  from m(2) obtain k where "(m, q) \<in> steps (run r) ^^ k" by (blast dest: rtrancl_imp_relpow)
  from short_path[OF progress_run this] obtain j where j: "j + length (snd q) \<le> length (snd m)"
    "(m, q) \<in> steps (run r) ^^ j" by blast
  from m(1) have mr: "m \<in> set (run r p)" by (simp add: steps_iff)
  from progressD[OF progress_run mr] have "length (snd m) \<le> length (snd p)" by auto
  with j(1) have "j \<le> length (snd p)" by simp
  with j(2) mr have "\<exists>k \<le> length (snd p). \<exists>m \<in> set (run r p). (m, q) \<in> steps (run r) ^^ k"
    by blast
  then show "q \<in> set (run (Plus r) p)" by (simp add: closure_steps)
qed

section \<open>The three patterns of the validator\<close>

text \<open>What \<open>Compile\<close> makes of the three pattern texts, and which strings they match.\<close>

lemma Compile_default_pattern:
  "Compile default_pattern =
     Inr (Concat BeginText
           (Concat (CharClass [(CHR ''a'', CHR ''z''), (CHR ''A'', CHR ''Z'')])
             (Concat (Star (CharClass [(CHR ''a'', CHR ''z''), (CHR ''A'', CHR ''Z''),
                                       (CHR ''0'', CHR ''9''), (CHR ''_'', CHR ''_'')]))
                EndText)))"
  by code_simp

lemma Compile_number_pattern:
  "Compile number_pattern =
     Inr (Concat BeginText
           (Concat (Quest (Literal CHR ''-''))
             (Concat (Plus (CharClass [(CHR ''0'', CHR ''9'')]))
               (Concat (Quest (Capture (Concat (Literal CHR ''.'')
                                          (Plus (CharClass [(CHR ''0'', CHR ''9'')])))))
                  EndText))))"
  by code_simp

lemma Compile_date_pattern:
  "Compile date_pattern =
     Inr (Concat BeginText
           (Concat (Repeat 4 (CharClass [(CHR ''0'', CHR ''9'')]))
             (Concat (Literal CHR ''-'')
               (Concat (Repeat 2 (CharClass [(CHR ''0'', CHR ''9'')]))
                 (Concat (Literal CHR ''-'')
                   (Concat (Repeat 2 (CharClass [(CHR ''0'', CHR ''9'')])) EndText))))))"
  by code_simp

lemma MatchString_default:
  "MatchString (Concat BeginText
           (Concat (CharClass [(CHR ''a'', CHR ''z''), (CHR ''A'', CHR ''Z'')])
             (Concat (Star (CharClass [(CHR ''a'', CHR ''z''), (CHR ''A'', CHR ''Z''),
                                       (CHR ''0'', CHR ''9''), (CHR ''_'', CHR ''_'')]))
                EndText))) s = spec_name_syntax s"
  unfolding MatchString_anchored run_nonempty
  by (cases s)
     (auto simp: run_iffs in_class_letter in_class_word spec_name_syntax_def simp del: run.simps)

lemma MatchString_number:
  "MatchString (Concat BeginText
           (Concat (Quest (Literal CHR ''-''))
             (Concat (Plus (CharClass [(CHR ''0'', CHR ''9'')]))
               (Concat (Quest (Capture (Concat (Literal CHR ''.'')
                                          (Plus (CharClass [(CHR ''0'', CHR ''9'')])))))
                  EndText)))) v = spec_number_syntax v"
  (is "MatchString ?re v = _")
proof -
  let ?frac = "\<lambda>fp. fp = [] \<or> (\<exists>ds. ds \<noteq> [] \<and> fp = CHR ''.'' # ds \<and> list_all is_digit ds)"
  let ?body = "\<lambda>t. \<exists>ip fp. ip \<noteq> [] \<and> t = ip @ fp \<and> list_all is_digit ip \<and> ?frac fp"
  have "MatchString ?re v \<longleftrightarrow> ((\<exists>t1. v = CHR ''-'' # t1 \<and> ?body t1) \<or> ?body v)"
    unfolding MatchString_anchored run_nonempty
    by (simp add: run_Concat_heads in_class_digit del: run.simps) blast
  also have "\<dots> \<longleftrightarrow> spec_number_syntax v" (is "?A \<longleftrightarrow> ?B")
  proof
    assume a: ?A
    have "\<exists>sign t. v = sign @ t \<and> (sign = [] \<or> sign = ''-'') \<and> ?body t"
    proof (cases "?body v")
      case True
      then have "v = [] @ v \<and> (([]::string) = [] \<or> ([]::string) = ''-'') \<and> ?body v" by simp
      then show ?thesis by blast
    next
      case False
      with a obtain t1 where t1: "v = CHR ''-'' # t1" "?body t1" by blast
      then have "v = ''-'' @ t1 \<and> (''-'' = [] \<or> ''-'' = ''-'') \<and> ?body t1" by simp
      then show ?thesis by blast
    qed
    then obtain sign t where s: "v = sign @ t" "sign = [] \<or> sign = ''-''" and b: "?body t"
      by blast
    from b obtain ip fp where "ip \<noteq> []" "t = ip @ fp" "list_all is_digit ip"
      "fp = [] \<or> (\<exists>ds. ds \<noteq> [] \<and> fp = CHR ''.'' # ds \<and> list_all is_digit ds)" by blast
    with s show ?B unfolding spec_number_syntax_def by blast
  next
    assume ?B
    then obtain sign ip fp where h: "v = sign @ ip @ fp" "sign = [] \<or> sign = ''-''"
      "ip \<noteq> []" "list_all is_digit ip"
      "fp = [] \<or> (\<exists>ds. fp = CHR ''.'' # ds \<and> ds \<noteq> [] \<and> list_all is_digit ds)"
      unfolding spec_number_syntax_def by blast
    from h(3,4,5) have b: "?body (ip @ fp)" by blast
    from h(2) show ?A
    proof
      assume "sign = []"
      with h(1) b show ?A by simp
    next
      assume "sign = ''-''"
      with h(1) have "v = CHR ''-'' # (ip @ fp)" by simp
      with b show ?A by blast
    qed
  qed
  finally show ?thesis .
qed

lemma MatchString_date:
  "MatchString (Concat BeginText
           (Concat (Repeat 4 (CharClass [(CHR ''0'', CHR ''9'')]))
             (Concat (Literal CHR ''-'')
               (Concat (Repeat 2 (CharClass [(CHR ''0'', CHR ''9'')]))
                 (Concat (Literal CHR ''-'')
                   (Concat (Repeat 2 (CharClass [(CHR ''0'', CHR ''9'')])) EndText)))))) v
     = spec_date_syntax v"
  unfolding MatchString_anchored run_nonempty spec_date_syntax_def
  by (simp add: run_Concat_heads in_class_digit del: run.simps) blast

lemma NewQueryValidator_default:
  "compile default_pattern = Inr re \<Longrightarrow> paramPatterns (NewQueryValidator compile) ''default'' = Some re"
  by (simp add: NewQueryValidator_def AddParamPattern_def)

lemma NewQueryValidator_typeValidators:
  "typeValidators (NewQueryValidator compile) =
     [''number'' \<mapsto> number_validator compile, ''boolean'' \<mapsto> boolean_validator,
      ''date'' \<mapsto> date_validator compile]"
  by (cases "compile default_pattern") (simp_all add: NewQueryValidator_def AddParamPattern_def)

lemma validateParamValue_number:
  "validateParamValue (NewQueryValidator compile) v ''number'' = number_validator compile v"
  by (simp add: validateParamValue_def NewQueryValidator_typeValidators)

lemma validateParamValue_boolean:
  "validateParamValue (NewQueryValidator compile) v ''boolean'' = boolean_validator v"
  by (simp add: validateParamValue_def NewQueryValidator_typeValidators)

lemma validateParamValue_date:
  "validateParamValue (NewQueryValidator compile) v ''date'' = date_validator compile v"
  by (simp add: validateParamValue_def NewQueryValidator_typeValidators)

section \<open>Properties of lower-casing\<close>

lemma lower_byte_C4: "lower_byte (CHR 0xC4) = CHR 0xC4" and lower_byte_E2: "lower_byte (CHR 0xE2) = CHR 0xE2"
  by code_simp+

lemma not_ascii_C4: "\<not> is_ascii (CHR 0xC4)" and not_ascii_E2: "\<not> is_ascii (CHR 0xE2)"
  by code_simp+

lemma ToLower_plain:
  "CHR 0xC4 \<notin> set v \<Longrightarrow> CHR 0xE2 \<notin> set v \<Longrightarrow> ToLower v = map lower_byte v"
  by (induction v rule: ToLower.induct) auto

lemma ascii_lower_plain:
  assumes "list_all is_ascii (map lower_byte v)"
  shows "CHR 0xC4 \<notin> set v \<and> CHR 0xE2 \<notin> set v"
proof -
  have "is_ascii (lower_byte c)" if "c \<in> set v" for c
    using assms that by (auto simp: list_all_iff)
  then show ?thesis
    using lower_byte_C4 lower_byte_E2 not_ascii_C4 not_ascii_E2 by metis
qed

lemma ToLower_no_ik:
  "CHR ''i'' \<notin> set (ToLower v) \<Longrightarrow> CHR ''k'' \<notin> set (ToLower v) \<Longrightarrow>
   ToLower v = map lower_byte v"
  by (induction v rule: ToLower.induct) (auto split: if_splits)

lemma ToLower_eq_iff:
  assumes "list_all is_ascii w" "CHR ''i'' \<notin> set w" "CHR ''k'' \<notin> set w"
  shows "ToLower v = w \<longleftrightarrow> map lower_byte v = w"
proof
  assume "ToLower v = w"
  with assms(2,3) show "map lower_byte v = w" using ToLower_no_ik[of v] by simp
next
  assume m: "map lower_byte v = w"
  with assms(1) have "CHR 0xC4 \<notin> set v \<and> CHR 0xE2 \<notin> set v"
    using ascii_lower_plain[of v] by simp
  with m show "ToLower v = w" by (simp add: ToLower_plain)
qed

lemma boolean_validator_spec: "boolean_validator v = spec_boolean_syntax v"
proof -
  have a: "ToLower v = ''true'' \<longleftrightarrow> map lower_byte v = ''true''"
    by (rule ToLower_eq_iff) (simp_all add: is_ascii_def)
  have b: "ToLower v = ''false'' \<longleftrightarrow> map lower_byte v = ''false''"
    by (rule ToLower_eq_iff) (simp_all add: is_ascii_def)
  have c: "ToLower v = ''1'' \<longleftrightarrow> map lower_byte v = ''1''"
    by (rule ToLower_eq_iff) (simp_all add: is_ascii_def)
  have d: "ToLower v = ''0'' \<longleftrightarrow> map lower_byte v = ''0''"
    by (rule ToLower_eq_iff) (simp_all add: is_ascii_def)
  show ?thesis
    unfolding boolean_validator_def spec_boolean_syntax_def Let_def
    by (simp only: a b c d)
qed

section \<open>Properties of the validation loop\<close>

lemma ValidateQuery_loop_concat:
  "ValidateQuery_loop qs (errs, qv, rules) =
     (errs @ concat (map (three_step_check qv rules) qs), qv, rules)"
proof (induction qs arbitrary: errs)
  case Nil
  show ?case by simp
next
  case (Cons q qs)
  obtain param val where q: "q = (param, val)" by (cases q)
  show ?case
    unfolding q
    by (simp add: Cons.IH three_step_check_def validateParamName_def validateParamValue_def
             split: option.splits)
qed

lemma ValidateQuery_eq:
  "ValidateQuery qv qs rules = (concat (map (three_step_check qv rules) qs), qv, rules)"
  by (simp add: ValidateQuery_def ValidateQuery_loop_concat)

lemma three_step_check_length: "length (three_step_check qv rules q) \<le> Suc 0"
  by (simp add: three_step_check_def Let_def split: option.splits)

lemma three_step_check_Parameter:
  "e \<in> set (three_step_check qv rules q) \<Longrightarrow> Parameter e = fst q \<and> Value e = snd q"
  by (auto simp: three_step_check_def Let_def split: option.splits if_splits)

lemma length_concat_le1:
  "(\<And>x. length (f x) \<le> Suc 0) \<Longrightarrow>
   length (concat (map f xs)) = length (filter (\<lambda>x. f x \<noteq> []) xs)"
proof (induction xs)
  case Nil
  show ?case by simp
next
  case (Cons x xs)
  have "length (f x) \<le> Suc 0" by (rule Cons.prems)
  then have "length (f x) = (if f x = [] then 0 else 1)"
    by (cases "f x") auto
  with Cons show ?case by simp
qed

lemma mset_concat_map: "mset (concat (map f xs)) = (\<Sum>x\<in>#mset xs. mset (f x))"
  by (induction xs) simp_all

lemma range_order_mset:
  assumes "range_order m qs" "range_order m qs'"
  shows "mset qs = mset qs'"
proof -
  have d: "distinct qs" "distinct qs'"
    using assms by (auto simp: range_order_def distinct_map)
  have "set qs = {(k, v). m k = Some v}" if "range_order m qs" for qs
    using that by (auto simp: range_order_def dest: map_of_SomeD)
  then have "set qs = set qs'" using assms by simp
  with d show ?thesis by (simp add: set_eq_iff_mset_eq_distinct)
qed

lemma range_order_exists: "finite (dom m) \<Longrightarrow> \<exists>qs. range_order m qs"
proof (induction m rule: finite_Map_induct)
  case empty
  have "range_order Map.empty []" by (simp add: range_order_def)
  then show ?case by blast
next
  case (update k v m)
  then obtain qs where qs: "distinct (map fst qs)" "map_of qs = m"
    by (auto simp: range_order_def)
  from update(2) qs have "k \<notin> fst ` set qs" by (auto simp: dom_map_of_conv_image_fst)
  with qs have "range_order (m(k \<mapsto> v)) ((k, v) # qs)"
    by (auto simp: range_order_def)
  then show ?case by blast
qed

lemma three_step_check_no_validator:
  assumes "rules param = Some expectedType" "typeValidators qv expectedType = None"
    "e \<in> set (three_step_check qv rules q)" "Parameter e = param"
  shows "Message e = ''invalid parameter name format'' \<and> \<not> validateParamName qv param"
  using assms
  by (auto simp: three_step_check_def validateParamName_def Let_def split: option.splits if_splits)

lemma NewQueryValidator_string: "typeValidators (NewQueryValidator compile) ''string'' = None"
  by (simp add: NewQueryValidator_def Let_def split: prod.splits)
     (auto simp: AddParamPattern_def split: sum.splits)

lemma three_step_check_name:
  "\<not> validateParamName qv (fst q) \<Longrightarrow>
   three_step_check qv rules q
     = [\<lparr>Parameter = fst q, Value = snd q, Message = ''invalid parameter name format''\<rparr>]"
  by (auto simp: three_step_check_def validateParamName_def Let_def split: option.splits)

section \<open>The examples of the specification\<close>

text \<open>
  The four requests of the specification's list of testable properties, against the rules
  \<open>age: number\<close>, \<open>status: string\<close>.
\<close>

lemma spec_examples:
  "fst (ValidateQuery (NewQueryValidator Compile) [(''age'', ''30''), (''status'', ''active'')]
          [''age'' \<mapsto> ''number'', ''status'' \<mapsto> ''string'']) = []"
  "fst (ValidateQuery (NewQueryValidator Compile) [(''age'', ''abc'')]
          [''age'' \<mapsto> ''number'', ''status'' \<mapsto> ''string''])
     = [\<lparr>Parameter = ''age'', Value = ''abc'', Message = ''invalid value for type number''\<rparr>]"
  "fst (ValidateQuery (NewQueryValidator Compile) [(''unknown'', ''x'')]
          [''age'' \<mapsto> ''number'', ''status'' \<mapsto> ''string''])
     = [\<lparr>Parameter = ''unknown'', Value = ''x'', Message = ''unexpected parameter''\<rparr>]"
  "fst (ValidateQuery (NewQueryValidator Compile) [(''1bad'', ''x'')]
          [''age'' \<mapsto> ''number'', ''status'' \<mapsto> ''string''])
     = [\<lparr>Parameter = ''1bad'', Value = ''x'', Message = ''invalid parameter name format''\<rparr>]"
  by code_simp+

section \<open>The claims\<close>

text \<open>
  Claim C1. \<^verbatim>\<open>ValidateQuery\<close> returns exactly the records of the three-step check, pair by
  pair in the order of the iteration. The check of one pair gives at most one record, so
  the result has as many records as there are pairs that fail a step, and every record
  carries the name of an observed parameter: a parameter declared in the rules and absent
  from the request contributes none.
\<close>

theorem ValidateQuery_three_step:
  "fst (ValidateQuery qv queries rules) = concat (map (three_step_check qv rules) queries)
   \<and> length (three_step_check qv rules q) \<le> 1
   \<and> length (fst (ValidateQuery qv queries rules))
       = length (filter (\<lambda>q. three_step_check qv rules q \<noteq> []) queries)
   \<and> Parameter ` set (fst (ValidateQuery qv queries rules)) \<subseteq> fst ` set queries"
proof -
  have a: "fst (ValidateQuery qv queries rules) = concat (map (three_step_check qv rules) queries)"
    by (simp add: ValidateQuery_eq)
  have b: "length (three_step_check qv rules q) \<le> 1"
    using three_step_check_length[of qv rules q] by simp
  have c: "length (fst (ValidateQuery qv queries rules))
       = length (filter (\<lambda>q. three_step_check qv rules q \<noteq> []) queries)"
    unfolding a by (rule length_concat_le1) (rule three_step_check_length)
  have d: "Parameter ` set (fst (ValidateQuery qv queries rules)) \<subseteq> fst ` set queries"
    unfolding a by (auto dest: three_step_check_Parameter)
  from a b c d show ?thesis by blast
qed

text \<open>
  Claim C2. With the configuration of \<^verbatim>\<open>NewQueryValidator\<close> (for a compiler that compiles the
  default pattern as \<open>Compile\<close> does) the name-format check passes exactly for the names
  made of an ASCII letter followed by ASCII letters, digits and underscores. Every other
  name is reported by \<^verbatim>\<open>ValidateQuery\<close> with the single record "invalid parameter name
  format"; the names \<open>1abc\<close>, the empty name and \<open>a-b\<close> are among them.
\<close>

theorem name_format_check:
  assumes "compile default_pattern = Compile default_pattern"
  shows "validateParamName (NewQueryValidator compile) s = spec_name_syntax s
    \<and> (\<not> spec_name_syntax s \<and> (s, v) \<in> set queries \<longrightarrow>
          \<lparr>Parameter = s, Value = v, Message = ''invalid parameter name format''\<rparr>
            \<in> set (fst (ValidateQuery (NewQueryValidator compile) queries rules)))
    \<and> (\<not> spec_name_syntax s \<longrightarrow>
          fst (ValidateQuery (NewQueryValidator compile) [(s, v)] rules)
            = [\<lparr>Parameter = s, Value = v, Message = ''invalid parameter name format''\<rparr>])
    \<and> \<not> validateParamName (NewQueryValidator compile) ''1abc''
    \<and> \<not> validateParamName (NewQueryValidator compile) []
    \<and> \<not> validateParamName (NewQueryValidator compile) ''a-b''"
proof -
  have n: "validateParamName (NewQueryValidator compile) x = spec_name_syntax x" for x
    using assms
    by (simp add: validateParamName_def Compile_default_pattern NewQueryValidator_default
                  MatchString_default)
  have e: "\<not> spec_name_syntax ''1abc''" "\<not> spec_name_syntax []" "\<not> spec_name_syntax ''a-b''"
    by code_simp+
  have c: "three_step_check (NewQueryValidator compile) rules (s, v)
            = [\<lparr>Parameter = s, Value = v, Message = ''invalid parameter name format''\<rparr>]"
    if "\<not> spec_name_syntax s"
    using that n[of s] three_step_check_name[of "NewQueryValidator compile" "(s, v)" rules]
    by simp
  have r: "fst (ValidateQuery (NewQueryValidator compile) [(s, v)] rules)
            = [\<lparr>Parameter = s, Value = v, Message = ''invalid parameter name format''\<rparr>]"
    if "\<not> spec_name_syntax s"
    using c[OF that] by (simp add: ValidateQuery_eq)
  have q: "\<lparr>Parameter = s, Value = v, Message = ''invalid parameter name format''\<rparr>
            \<in> set (fst (ValidateQuery (NewQueryValidator compile) queries rules))"
    if "\<not> spec_name_syntax s" "(s, v) \<in> set queries"
  proof -
    from c[OF that(1)]
    have "\<lparr>Parameter = s, Value = v, Message = ''invalid parameter name format''\<rparr>
            \<in> set (three_step_check (NewQueryValidator compile) rules (s, v))" by simp
    with that(2) show ?thesis by (auto simp: ValidateQuery_eq)
  qed
  from n e r q show ?thesis by blast
qed

theorem name_format_check_witness:
  "Compile default_pattern = Compile default_pattern
   \<and> validateParamName (NewQueryValidator Compile) ''user_id2''
   \<and> \<not> spec_name_syntax ''1abc''
   \<and> (''1abc'', ''x'') \<in> set [(''age'', ''30''), (''1abc'', ''x'')]
   \<and> \<lparr>Parameter = ''1abc'', Value = ''x'', Message = ''invalid parameter name format''\<rparr>
        \<in> set (fst (ValidateQuery (NewQueryValidator Compile) [(''age'', ''30''), (''1abc'', ''x'')]
                      [''age'' \<mapsto> ''number'']))
   \<and> fst (ValidateQuery (NewQueryValidator Compile) [(''1abc'', ''x'')] [''age'' \<mapsto> ''number''])
       = [\<lparr>Parameter = ''1abc'', Value = ''x'', Message = ''invalid parameter name format''\<rparr>]"
proof -
  have s: "spec_name_syntax ''user_id2''" "\<not> spec_name_syntax ''1abc''" by code_simp+
  have i: "(''1abc'', ''x'') \<in> set [(''age'', ''30''), (''1abc'', ''x'')]" by simp
  note t = name_format_check[where compile = Compile, OF refl]
  from t[where s = "''user_id2''"] s(1)
  have a: "validateParamName (NewQueryValidator Compile) ''user_id2''"
    by blast
  note u = t[where s = "''1abc''" and v = "''x''"
        and queries = "[(''age'', ''30''), (''1abc'', ''x'')]" and rules = "[''age'' \<mapsto> ''number'']"]
  from u s(2) i
  have b: "\<lparr>Parameter = ''1abc'', Value = ''x'', Message = ''invalid parameter name format''\<rparr>
        \<in> set (fst (ValidateQuery (NewQueryValidator Compile) [(''age'', ''30''), (''1abc'', ''x'')]
                      [''age'' \<mapsto> ''number'']))"
    by blast
  from u s(2)
  have c: "fst (ValidateQuery (NewQueryValidator Compile) [(''1abc'', ''x'')] [''age'' \<mapsto> ''number''])
       = [\<lparr>Parameter = ''1abc'', Value = ''x'', Message = ''invalid parameter name format''\<rparr>]"
    by blast
  from a b c s(2) i show ?thesis by blast
qed

text \<open>
  Claim C3. The built-in \<open>number\<close> validator accepts exactly the strings made of an optional
  minus sign, one or more digits and, optionally, a dot followed by one or more digits:
  \<open>42\<close> and \<open>-3.5\<close> are accepted, \<open>abc\<close> and \<open>3.\<close> are rejected.
\<close>

theorem number_validator_accepts:
  assumes "compile number_pattern = Compile number_pattern"
  shows "validateParamValue (NewQueryValidator compile) v ''number'' = spec_number_syntax v
    \<and> validateParamValue (NewQueryValidator compile) ''42'' ''number''
    \<and> validateParamValue (NewQueryValidator compile) ''-3.5'' ''number''
    \<and> \<not> validateParamValue (NewQueryValidator compile) ''abc'' ''number''
    \<and> \<not> validateParamValue (NewQueryValidator compile) ''3.'' ''number''"
proof -
  let ?re = "Concat BeginText
           (Concat (Quest (Literal CHR ''-''))
             (Concat (Plus (CharClass [(CHR ''0'', CHR ''9'')]))
               (Concat (Quest (Capture (Concat (Literal CHR ''.'')
                                          (Plus (CharClass [(CHR ''0'', CHR ''9'')])))))
                  EndText)))"
  have m: "validateParamValue (NewQueryValidator compile) x ''number'' = MatchString ?re x" for x
    using assms
    by (simp add: validateParamValue_number number_validator_def regexp_MatchString_def
                  Compile_number_pattern)
  have e: "MatchString ?re ''42''" "MatchString ?re ''-3.5''" "\<not> MatchString ?re ''abc''"
    "\<not> MatchString ?re ''3.''"
    by code_simp+
  from m e show ?thesis by (simp add: MatchString_number)
qed

theorem number_validator_accepts_witness:
  "Compile number_pattern = Compile number_pattern
   \<and> validateParamValue (NewQueryValidator Compile) ''-3.5'' ''number''
   \<and> spec_number_syntax ''-3.5''
   \<and> \<not> validateParamValue (NewQueryValidator Compile) ''3.'' ''number''"
  using number_validator_accepts[where compile = Compile and v = "''-3.5''", OF refl] by blast

text \<open>
  Claim C4. The built-in \<open>boolean\<close> validator accepts a string exactly when its lower-case
  form is one of \<open>true\<close>, \<open>false\<close>, \<open>1\<close>, \<open>0\<close>; these are the strings that spell one of
  the four words in ASCII letters of either case. \<open>TRUE\<close> is accepted and \<open>yes\<close> is rejected.
\<close>

theorem boolean_validator_accepts:
  "validateParamValue (NewQueryValidator compile) v ''boolean''
     = (ToLower v \<in> {''true'', ''false'', ''1'', ''0''})
   \<and> validateParamValue (NewQueryValidator compile) v ''boolean'' = spec_boolean_syntax v
   \<and> validateParamValue (NewQueryValidator compile) ''TRUE'' ''boolean''
   \<and> \<not> validateParamValue (NewQueryValidator compile) ''yes'' ''boolean''"
proof -
  have a: "validateParamValue (NewQueryValidator compile) v ''boolean''
     = (ToLower v \<in> {''true'', ''false'', ''1'', ''0''})"
    by (simp add: validateParamValue_boolean boolean_validator_def Let_def)
  have b: "validateParamValue (NewQueryValidator compile) v ''boolean'' = spec_boolean_syntax v"
    by (simp add: validateParamValue_boolean boolean_validator_spec)
  have c: "boolean_validator ''TRUE''" "\<not> boolean_validator ''yes''" by code_simp+
  from a b c show ?thesis by (simp add: validateParamValue_boolean)
qed

theorem boolean_validator_accepts_witness:
  "validateParamValue (NewQueryValidator Compile) ''False'' ''boolean''
   \<and> ToLower ''False'' = ''false''
   \<and> spec_boolean_syntax ''False''
   \<and> \<not> validateParamValue (NewQueryValidator Compile) ''yes'' ''boolean''"
proof -
  have l: "ToLower ''False'' = ''false''" by code_simp
  have m: "ToLower ''False'' \<in> {''true'', ''false'', ''1'', ''0''}" unfolding l by simp
  note t = boolean_validator_accepts[of Compile "''False''"]
  from t m have a: "validateParamValue (NewQueryValidator Compile) ''False'' ''boolean''" by blast
  from t a have b: "spec_boolean_syntax ''False''" by blast
  from t have c: "\<not> validateParamValue (NewQueryValidator Compile) ''yes'' ''boolean''" by blast
  from a l b c show ?thesis by blast
qed

text \<open>
  Claim C5. The built-in \<open>date\<close> validator accepts exactly the strings of four digits, a
  hyphen, two digits, a hyphen and two digits. Nothing checks the calendar:
  \<open>2024-13-99\<close> is accepted.
\<close>

theorem date_validator_accepts:
  assumes "compile date_pattern = Compile date_pattern"
  shows "validateParamValue (NewQueryValidator compile) v ''date'' = spec_date_syntax v
    \<and> validateParamValue (NewQueryValidator compile) ''2024-13-99'' ''date''"
proof -
  let ?re = "Concat BeginText
           (Concat (Repeat 4 (CharClass [(CHR ''0'', CHR ''9'')]))
             (Concat (Literal CHR ''-'')
               (Concat (Repeat 2 (CharClass [(CHR ''0'', CHR ''9'')]))
                 (Concat (Literal CHR ''-'')
                   (Concat (Repeat 2 (CharClass [(CHR ''0'', CHR ''9'')])) EndText)))))"
  have m: "validateParamValue (NewQueryValidator compile) x ''date'' = MatchString ?re x" for x
    using assms
    by (simp add: validateParamValue_date date_validator_def regexp_MatchString_def
                  Compile_date_pattern)
  have e: "MatchString ?re ''2024-13-99''" by code_simp
  from m e show ?thesis by (simp add: MatchString_date)
qed

theorem date_validator_accepts_witness:
  "Compile date_pattern = Compile date_pattern
   \<and> validateParamValue (NewQueryValidator Compile) ''2024-13-99'' ''date''
   \<and> spec_date_syntax ''2024-13-99''
   \<and> \<not> validateParamValue (NewQueryValidator Compile) ''2024-1-09'' ''date''"
proof -
  have n: "\<not> validateParamValue (NewQueryValidator Compile) ''2024-1-09'' ''date''" by code_simp
  from date_validator_accepts[where compile = Compile and v = "''2024-13-99''", OF refl] n
  show ?thesis by blast
qed

text \<open>
  Claim C6. The fallback is permissive. A value whose expected type tag has no registered
  validator passes the type check, and a name passes the name-format check when no
  pattern is registered under \<open>default\<close>. In \<^verbatim>\<open>ValidateQuery\<close>, a parameter whose tag has
  no validator never gets the record "invalid value for type", and gets no record at all
  when its name passes the format check.
\<close>

theorem permissive_fallback:
  "(typeValidators qv expectedType = None \<longrightarrow> validateParamValue qv val expectedType)
   \<and> (paramPatterns qv ''default'' = None \<longrightarrow> validateParamName qv param)
   \<and> (rules param = Some expectedType \<and> typeValidators qv expectedType = None \<longrightarrow>
        \<lparr>Parameter = param, Value = val, Message = ''invalid value for type '' @ expectedType\<rparr>
          \<notin> set (fst (ValidateQuery qv queries rules)))
   \<and> (rules param = Some expectedType \<and> typeValidators qv expectedType = None
        \<and> validateParamName qv param \<longrightarrow>
        (\<forall>e \<in> set (fst (ValidateQuery qv queries rules)). Parameter e \<noteq> param))"
proof -
  have a: "typeValidators qv expectedType = None \<longrightarrow> validateParamValue qv val expectedType"
    by (simp add: validateParamValue_def)
  have b: "paramPatterns qv ''default'' = None \<longrightarrow> validateParamName qv param"
    by (simp add: validateParamName_def)
  have c: "\<lparr>Parameter = param, Value = val, Message = ''invalid value for type '' @ expectedType\<rparr>
          \<notin> set (fst (ValidateQuery qv queries rules))"
    if h: "rules param = Some expectedType" "typeValidators qv expectedType = None"
  proof
    let ?e = "\<lparr>Parameter = param, Value = val, Message = ''invalid value for type '' @ expectedType\<rparr>"
    assume "?e \<in> set (fst (ValidateQuery qv queries rules))"
    then obtain q where "?e \<in> set (three_step_check qv rules q)"
      by (auto simp: ValidateQuery_eq)
    from three_step_check_no_validator[OF h this] show False by simp
  qed
  have d: "\<forall>e \<in> set (fst (ValidateQuery qv queries rules)). Parameter e \<noteq> param"
    if h: "rules param = Some expectedType" "typeValidators qv expectedType = None"
      and n: "validateParamName qv param"
  proof
    fix e assume "e \<in> set (fst (ValidateQuery qv queries rules))"
    then obtain q where q: "e \<in> set (three_step_check qv rules q)"
      by (auto simp: ValidateQuery_eq)
    show "Parameter e \<noteq> param"
    proof
      assume "Parameter e = param"
      from three_step_check_no_validator[OF h q this] n show False by simp
    qed
  qed
  from a b c d show ?thesis by blast
qed

theorem permissive_fallback_witness:
  "typeValidators (NewQueryValidator Compile) ''string'' = None
   \<and> validateParamValue (NewQueryValidator Compile) ''active'' ''string''
   \<and> paramPatterns \<lparr>paramPatterns = Map.empty, typeValidators = Map.empty\<rparr> ''default'' = None
   \<and> validateParamName \<lparr>paramPatterns = Map.empty, typeValidators = Map.empty\<rparr> ''1bad''
   \<and> [''status'' \<mapsto> ''string''] ''status'' = Some ''string''
   \<and> validateParamName (NewQueryValidator Compile) ''status''
   \<and> \<lparr>Parameter = ''status'', Value = ''active'', Message = ''invalid value for type string''\<rparr>
        \<notin> set (fst (ValidateQuery (NewQueryValidator Compile) [(''status'', ''active'')]
                    [''status'' \<mapsto> ''string'']))
   \<and> fst (ValidateQuery (NewQueryValidator Compile) [(''status'', ''active'')]
                    [''status'' \<mapsto> ''string'']) = []"
proof -
  have h1: "typeValidators (NewQueryValidator Compile) ''string'' = None"
    by (rule NewQueryValidator_string)
  have h2: "paramPatterns \<lparr>paramPatterns = Map.empty, typeValidators = Map.empty\<rparr> ''default'' = None"
    by simp
  have h3: "[''status'' \<mapsto> ''string''] ''status'' = Some ''string''" by simp
  have h4: "validateParamName (NewQueryValidator Compile) ''status''" by code_simp
  have h5: "fst (ValidateQuery (NewQueryValidator Compile) [(''status'', ''active'')]
                    [''status'' \<mapsto> ''string'']) = []" by code_simp
  from permissive_fallback[of "NewQueryValidator Compile" "''string''" "''active''" "''status''"
       "[''status'' \<mapsto> ''string'']" "[(''status'', ''active'')]"] h1 h3 h4
  have a: "validateParamValue (NewQueryValidator Compile) ''active'' ''string''"
    and c: "\<lparr>Parameter = ''status'', Value = ''active'', Message = ''invalid value for type string''\<rparr>
        \<notin> set (fst (ValidateQuery (NewQueryValidator Compile) [(''status'', ''active'')]
                    [''status'' \<mapsto> ''string'']))"
    by simp_all
  from permissive_fallback[of "\<lparr>paramPatterns = Map.empty, typeValidators = Map.empty\<rparr>"
       _ _ "''1bad''"] h2
  have b: "validateParamName \<lparr>paramPatterns = Map.empty, typeValidators = Map.empty\<rparr> ''1bad''"
    by blast
  from h1 h2 h3 h4 h5 a b c show ?thesis by blast
qed

text \<open>
  Claim C7. When the compiler rejects the pattern, \<^verbatim>\<open>AddParamPattern\<close> returns an error whose
  message contains the name and the compiler's message, and leaves the validator, hence
  the whole name-pattern table, as it was.
\<close>

theorem AddParamPattern_invalid:
  assumes "compile pattern = Inl msg"
  shows "AddParamPattern compile name pattern qv
           = (qv, Some (''invalid pattern for '' @ name @ '': '' @ msg))
         \<and> sublist name (''invalid pattern for '' @ name @ '': '' @ msg)
         \<and> sublist msg (''invalid pattern for '' @ name @ '': '' @ msg)
         \<and> paramPatterns (fst (AddParamPattern compile name pattern qv)) = paramPatterns qv"
proof -
  have a: "AddParamPattern compile name pattern qv
           = (qv, Some (''invalid pattern for '' @ name @ '': '' @ msg))"
    using assms by (simp add: AddParamPattern_def)
  have b: "sublist name (''invalid pattern for '' @ name @ '': '' @ msg)"
    by (rule sublist_appendI)
  have "sublist msg ((''invalid pattern for '' @ name @ '': '') @ msg @ [])"
    by (rule sublist_appendI)
  then have c: "sublist msg (''invalid pattern for '' @ name @ '': '' @ msg)" by simp
  from a b c show ?thesis by simp
qed

theorem AddParamPattern_invalid_witness:
  "Compile ''('' = Inl (syntax_error ''missing closing )'' ''('')
   \<and> AddParamPattern Compile ''foo'' ''('' (NewQueryValidator Compile)
       = (NewQueryValidator Compile,
          Some (''invalid pattern for foo: '' @ syntax_error ''missing closing )'' ''(''))
   \<and> paramPatterns (fst (AddParamPattern Compile ''foo'' ''('' (NewQueryValidator Compile)))
       = paramPatterns (NewQueryValidator Compile)"
proof -
  have h: "Compile ''('' = Inl (syntax_error ''missing closing )'' ''('')" by code_simp
  from AddParamPattern_invalid[where compile = Compile and pattern = "''(''" and name = "''foo''"
       and qv = "NewQueryValidator Compile", OF h] h
  show ?thesis by simp
qed

text \<open>
  Claim C8. \<^verbatim>\<open>ValidateQuery\<close> leaves the validator (both tables) and the rule map as they
  were before the call, and it returns the empty list exactly when every observed pair
  passes the name-format check, is declared in the rules and passes the type check.
\<close>

theorem ValidateQuery_no_side_effects:
  "snd (ValidateQuery qv queries rules) = (qv, rules)
   \<and> (fst (ValidateQuery qv queries rules) = [] \<longleftrightarrow>
        list_all (\<lambda>(param, val). validateParamName qv param
            \<and> (\<exists>tag. rules param = Some tag \<and> validateParamValue qv val tag)) queries)"
proof -
  have "three_step_check qv rules q = [] \<longleftrightarrow>
        (case q of (param, val) \<Rightarrow> validateParamName qv param
            \<and> (\<exists>tag. rules param = Some tag \<and> validateParamValue qv val tag))" for q
    by (cases q)
       (auto simp: three_step_check_def validateParamName_def validateParamValue_def Let_def
             split: option.splits)
  then show ?thesis
    by (simp add: ValidateQuery_eq list_all_iff)
qed

text \<open>
  Claim C9. Two runs of \<^verbatim>\<open>ValidateQuery\<close> on the same query map, in whatever order the
  iteration takes its pairs, return the same records with the same multiplicities; and for
  every (finite) query map there is a run, which returns a list of records and fails in no
  case.
\<close>

theorem ValidateQuery_deterministic:
  "(range_order m qs \<and> range_order m qs' \<longrightarrow>
      mset (fst (ValidateQuery qv qs rules)) = mset (fst (ValidateQuery qv qs' rules)))
   \<and> (finite (dom m) \<longrightarrow> (\<exists>qs errors. range_order m qs \<and> ValidateQuery qv qs rules = (errors, qv, rules)))"
proof -
  have "mset (fst (ValidateQuery qv qs rules)) = mset (fst (ValidateQuery qv qs' rules))"
    if "range_order m qs" "range_order m qs'"
  proof -
    have "mset qs = mset qs'" using that by (rule range_order_mset)
    then show ?thesis
      by (simp add: ValidateQuery_eq mset_concat_map)
  qed
  moreover have "\<exists>qs errors. range_order m qs \<and> ValidateQuery qv qs rules = (errors, qv, rules)"
    if "finite (dom m)"
    using range_order_exists[OF that] by (auto simp: ValidateQuery_eq)
  ultimately show ?thesis by blast
qed

theorem ValidateQuery_deterministic_witness:
  "range_order [''age'' \<mapsto> ''abc'', ''unknown'' \<mapsto> ''x''] [(''age'', ''abc''), (''unknown'', ''x'')]
   \<and> range_order [''age'' \<mapsto> ''abc'', ''unknown'' \<mapsto> ''x''] [(''unknown'', ''x''), (''age'', ''abc'')]
   \<and> mset (fst (ValidateQuery (NewQueryValidator Compile) [(''age'', ''abc''), (''unknown'', ''x'')]
               [''age'' \<mapsto> ''number'']))
     = mset (fst (ValidateQuery (NewQueryValidator Compile) [(''unknown'', ''x''), (''age'', ''abc'')]
               [''age'' \<mapsto> ''number'']))
   \<and> finite (dom [''age'' \<mapsto> ''abc'', ''unknown'' \<mapsto> ''x''])
   \<and> (\<exists>qs errors. range_order [''age'' \<mapsto> ''abc'', ''unknown'' \<mapsto> ''x''] qs
        \<and> ValidateQuery (NewQueryValidator Compile) qs [''age'' \<mapsto> ''number'']
            = (errors, NewQueryValidator Compile, [''age'' \<mapsto> ''number'']))"
proof -
  have r1: "range_order [''age'' \<mapsto> ''abc'', ''unknown'' \<mapsto> ''x''] [(''age'', ''abc''), (''unknown'', ''x'')]"
    by (auto simp: range_order_def fun_eq_iff)
  have r2: "range_order [''age'' \<mapsto> ''abc'', ''unknown'' \<mapsto> ''x''] [(''unknown'', ''x''), (''age'', ''abc'')]"
    by (auto simp: range_order_def fun_eq_iff)
  have f: "finite (dom [''age'' \<mapsto> ''abc'', ''unknown'' \<mapsto> ''x''])" by simp
  from ValidateQuery_deterministic[of "[''age'' \<mapsto> ''abc'', ''unknown'' \<mapsto> ''x'']"
      "[(''age'', ''abc''), (''unknown'', ''x'')]" "[(''unknown'', ''x''), (''age'', ''abc'')]"
      "NewQueryValidator Compile" "[''age'' \<mapsto> ''number'']"] r1 r2 f
  show ?thesis by blast
qed

text \<open>
  Claim C10. When the compiler accepts the pattern, \<^verbatim>\<open>AddParamPattern\<close> returns no error and
  stores the compiled pattern under the name, replacing what was there; the other entries of
  the name-pattern table and the type-validator table stay as they were. Stored under
  \<open>default\<close>, the new pattern decides the name-format check from then on.
\<close>

theorem AddParamPattern_valid:
  assumes "compile pattern = Inr regex"
  shows "AddParamPattern compile name pattern qv
           = (qv\<lparr>paramPatterns := (paramPatterns qv)(name \<mapsto> regex)\<rparr>, None)
         \<and> paramPatterns (fst (AddParamPattern compile name pattern qv))
             = (paramPatterns qv)(name \<mapsto> regex)
         \<and> typeValidators (fst (AddParamPattern compile name pattern qv)) = typeValidators qv
         \<and> validateParamName (fst (AddParamPattern compile ''default'' pattern qv)) param
             = MatchString regex param"
  using assms by (simp add: AddParamPattern_def validateParamName_def)

theorem AddParamPattern_valid_witness:
  "Compile ''[0-9]+'' = Inr (Plus (CharClass [(CHR ''0'', CHR ''9'')]))
   \<and> snd (AddParamPattern Compile ''default'' ''[0-9]+'' (NewQueryValidator Compile)) = None
   \<and> \<not> validateParamName (NewQueryValidator Compile) ''1abc''
   \<and> validateParamName
        (fst (AddParamPattern Compile ''default'' ''[0-9]+'' (NewQueryValidator Compile))) ''1abc''
   \<and> typeValidators
        (fst (AddParamPattern Compile ''default'' ''[0-9]+'' (NewQueryValidator Compile)))
       = typeValidators (NewQueryValidator Compile)"
proof -
  have h: "Compile ''[0-9]+'' = Inr (Plus (CharClass [(CHR ''0'', CHR ''9'')]))" by code_simp
  have m: "MatchString (Plus (CharClass [(CHR ''0'', CHR ''9'')])) ''1abc''" by code_simp
  have n: "\<not> validateParamName (NewQueryValidator Compile) ''1abc''" by code_simp
  note t = AddParamPattern_valid[where compile = Compile and pattern = "''[0-9]+''"
       and name = "''default''" and qv = "NewQueryValidator Compile" and param = "''1abc''", OF h]
  from t have a: "snd (AddParamPattern Compile ''default'' ''[0-9]+'' (NewQueryValidator Compile)) = None"
    by simp
  from t m have b: "validateParamName
        (fst (AddParamPattern Compile ''default'' ''[0-9]+'' (NewQueryValidator Compile))) ''1abc''"
    by blast
  from t have c: "typeValidators
        (fst (AddParamPattern Compile ''default'' ''[0-9]+'' (NewQueryValidator Compile)))
       = typeValidators (NewQueryValidator Compile)"
    by blast
  from h a n b c show ?thesis by blast
qed

end
